theory Spec2Isabelle
  imports Main "HOL-Library.Word"
begin

section \<open>Bytes and byte strings\<close>

text \<open>
  Python \<open>bytes\<close> values are lists of 8-bit words.  The two JPEG markers the frame
  extraction of \<open>_stream_via_ffmpeg\<close> (app_v2.py) looks for are the literals
  \<open>b'\xff\xd8'\<close> and \<open>b'\xff\xd9'\<close>.
\<close>

type_synonym byte = "8 word"
type_synonym bytes = "byte list"

definition SOI :: bytes where
  "SOI = [0xFF, 0xD8]"

definition EOI :: bytes where
  "EOI = [0xFF, 0xD9]"

text \<open>
  \<open>find_first sub xs\<close> is the lowest index at which \<open>sub\<close> occurs in \<open>xs\<close>;
  \<open>None\<close> stands for Python's \<open>-1\<close>.
\<close>

fun find_first :: "'a list \<Rightarrow> 'a list \<Rightarrow> nat option" where
  "find_first sub [] = (if sub = [] then Some 0 else None)"
| "find_first sub (x # xs) =
     (if take (length sub) (x # xs) = sub then Some 0
      else map_option Suc (find_first sub xs))"

text \<open>
  \<open>bytes.find(sub, start)\<close>: the lowest index \<open>i \<ge> start\<close> with
  \<open>buffer[i:i+len(sub)] == sub\<close>, or \<open>-1\<close> (here \<open>None\<close>); a \<open>start\<close> beyond
  the end finds nothing.
\<close>

definition bytes_find :: "'a list \<Rightarrow> 'a list \<Rightarrow> nat \<Rightarrow> nat option" where
  "bytes_find buffer sub start =
     (if length buffer < start then None
      else map_option (\<lambda>i. start + i) (find_first sub (drop start buffer)))"

text \<open>The slice \<open>xs[i:j]\<close> for indices \<open>0 \<le> i\<close>, \<open>0 \<le> j\<close>.\<close>

definition py_slice :: "'a list \<Rightarrow> nat \<Rightarrow> nat \<Rightarrow> 'a list" where
  "py_slice xs i j = take (j - i) (drop i xs)"

lemma find_first_bound:
  "find_first sub xs = Some i \<Longrightarrow> i + length sub \<le> length xs"
proof (induction xs arbitrary: i)
  case Nil
  then show ?case by (simp split: if_splits)
next
  case (Cons x xs)
  show ?case
  proof (cases "take (length sub) (x # xs) = sub")
    case True
    with Cons.prems have "i = 0" by simp
    moreover have "length (take (length sub) (x # xs)) \<le> length (x # xs)"
      by simp
    with True have "length sub \<le> length (x # xs)"
      by simp
    ultimately show ?thesis by simp
  next
    case False
    with Cons.prems obtain j where "find_first sub xs = Some j" "i = Suc j"
      by auto
    with Cons.IH show ?thesis by fastforce
  qed
qed

lemma bytes_find_bound:
  "bytes_find buffer sub start = Some i \<Longrightarrow> start \<le> i \<and> i + length sub \<le> length buffer"
  by (auto simp: bytes_find_def split: if_splits dest!: find_first_bound)

section \<open>The frame extraction loop of \<open>_stream_via_ffmpeg\<close>\<close>

text \<open>
  The inner \<open>while True\<close> loop (app_v2.py, lines 555 to 566): find the first start
  marker, then the first end marker at or after it; without either, leave the buffer as it
  is; otherwise yield \<open>buffer[start:end+2]\<close> and continue on \<open>buffer[end+2:]\<close>.
  The result is the list of frames yielded and the buffer the loop leaves behind.
\<close>

function extract_frames :: "bytes \<Rightarrow> bytes list \<times> bytes" where
  "extract_frames buffer =
     (case bytes_find buffer SOI 0 of
        None \<Rightarrow> ([], buffer)
      | Some start \<Rightarrow>
          (case bytes_find buffer EOI start of
             None \<Rightarrow> ([], buffer)
           | Some end \<Rightarrow>
               (case extract_frames (drop (end + 2) buffer) of
                  (frames, rest) \<Rightarrow> (py_slice buffer start (end + 2) # frames, rest))))"
  by pat_completeness auto
termination
proof (relation "measure length", goal_cases)
  case 1
  show ?case by simp
next
  case (2 buffer start end')
  from 2(2) have "end' + 2 \<le> length buffer"
    using bytes_find_bound [of buffer EOI start end'] by (simp add: EOI_def)
  then show ?case by simp
qed

declare extract_frames.simps [simp del]


section \<open>Exceptions\<close>

text \<open>
  Exceptions are values.  The parser can raise Python's \<open>ValueError\<close> in the ways
  listed; every exception of a collaborator (blinkpy, asyncio, the operating system) is an
  opaque \<open>Failure\<close>.  All of them are subclasses of \<open>Exception\<close>.
\<close>

datatype value_error =
    Invalid_literal
  | Exceeds_digit_limit
  | Too_many_values
  | Not_enough_values

datatype error = ValueError value_error | Failure nat

section \<open>The read loop and the generator \<open>_stream_via_ffmpeg\<close>\<close>

text \<open>
  The outer loop (lines 546 to 566) over the results of the successive
  \<open>await process.stdout.read(65536)\<close>: a read can raise, return \<open>b''\<close> (end of
  file, which ends the loop) or return a chunk, which is appended to the buffer before the
  frames are extracted.  Reads after the listed ones return \<open>b''\<close>.  The result is
  the frames yielded in order, the buffer at the end and the exception that left the loop,
  if any.  The consumer is taken to pull every frame.
\<close>

fun stream_loop :: "bytes \<Rightarrow> (error + bytes) list \<Rightarrow> bytes list \<times> bytes \<times> error option" where
  "stream_loop buffer [] = ([], buffer, None)"
| "stream_loop buffer (Inl e # reads) = ([], buffer, Some e)"
| "stream_loop buffer (Inr chunk # reads) =
     (if chunk = [] then ([], buffer, None)
      else (case extract_frames (buffer @ chunk) of
              (frames, buffer') \<Rightarrow>
                (case stream_loop buffer' reads of
                   (more, final, r) \<Rightarrow> (frames @ more, final, r))))"

definition startswith :: "'a list \<Rightarrow> 'a list \<Rightarrow> bool" where
  "startswith s p \<longleftrightarrow> take (length p) s = p"

text \<open>Python's \<open>sub in s\<close> on strings and bytes.\<close>

definition contains :: "'a list \<Rightarrow> 'a list \<Rightarrow> bool" where
  "contains sub s \<longleftrightarrow> find_first sub s \<noteq> None"

definition ffmpeg_cmd :: "string \<Rightarrow> string list" where
  "ffmpeg_cmd url =
     [''ffmpeg'', ''-hide_banner'', ''-loglevel'', ''warning''] @
     (if startswith url ''rtsps://'' then [''-rtsp_transport'', ''tcp''] else []) @
     [''-i'', url, ''-f'', ''image2pipe'', ''-vcodec'', ''mjpeg'', ''-q:v'', ''5'',
      ''-r'', ''10'', ''-'']"

text \<open>
  The subprocess as the generator sees it: what its standard output delivers, and what
  \<open>process.terminate()\<close> in the \<open>finally\<close> block does.
\<close>

record process =
  stdout_reads :: "(error + bytes) list"
  terminate_raises :: "error option"

text \<open>
  \<open>_stream_via_ffmpeg(url)\<close>, consumed to its end: the frames it yields and the
  exception it raises, if any.  The subprocess is created before the \<open>try\<close>; an
  exception of the \<open>finally\<close> block replaces the one in flight.
\<close>

definition stream_via_ffmpeg ::
  "(string list \<Rightarrow> error + process) \<Rightarrow> string \<Rightarrow> bytes list \<times> error option" where
  "stream_via_ffmpeg spawn url =
     (case spawn (ffmpeg_cmd url) of
        Inl e \<Rightarrow> ([], Some e)
      | Inr p \<Rightarrow>
          (case stream_loop [] (stdout_reads p) of
             (frames, final, r) \<Rightarrow>
               (frames, (case terminate_raises p of Some e \<Rightarrow> Some e | None \<Rightarrow> r))))"

section \<open>The MJPEG generator \<open>mjpeg_stream\<close> of \<open>stream_camera\<close>\<close>

definition boundary :: bytes where
  "boundary = [0x2D, 0x2D, 0x66, 0x72, 0x61, 0x6D, 0x65, 0x0D, 0x0A]"

definition content_type :: bytes where
  "content_type =
     [0x43, 0x6F, 0x6E, 0x74, 0x65, 0x6E, 0x74, 0x2D, 0x54, 0x79, 0x70, 0x65, 0x3A, 0x20,
      0x69, 0x6D, 0x61, 0x67, 0x65, 0x2F, 0x6A, 0x70, 0x65, 0x67, 0x0D, 0x0A, 0x0D, 0x0A]"

definition crlf :: bytes where
  "crlf = [0x0D, 0x0A]"

text \<open>
  A value the generator yields: bytes, or Python's \<open>None\<close> (line 421 yields whatever
  \<open>camera.image_from_cache\<close> holds at that moment).
\<close>

type_synonym chunk = "bytes option"

text \<open>The four values the generator yields for one frame.\<close>

definition mjpeg_part :: "chunk \<Rightarrow> chunk list" where
  "mjpeg_part frame = [Some boundary, Some content_type, frame, Some crlf]"

text \<open>
  One round of the snapshot loop reads \<open>camera.image_from_cache\<close> four times: twice
  in the condition of line 417 (the truth test, then the comparison with
  \<open>last_frame\<close>), once in the assignment of line 418 and once in the \<open>yield\<close>
  of line 421, after the generator has been suspended at the two \<open>yield\<close>s of lines
  419 and 420.  Each read gives \<open>None\<close> or bytes.
\<close>

record cache_reads =
  at_test :: "bytes option"
  at_compare :: "bytes option"
  at_store :: "bytes option"
  at_yield :: "bytes option"

text \<open>Python's truth value of \<open>None\<close> or bytes.\<close>

definition truthy :: "bytes option \<Rightarrow> bool" where
  "truthy v = (case v of None \<Rightarrow> False | Some b \<Rightarrow> b \<noteq> [])"

text \<open>
  The camera and account service as the generator uses them: \<open>get_liveview()\<close> (with
  the statements before it in the \<open>try\<close> block); \<open>init_livestream()\<close> followed
  by \<open>livestream.start\<close>, giving the proxy's port; the \<open>finally\<close> block
  \<open>feed_task.cancel(); livestream.stop()\<close>; and, for the \<open>i\<close>-th round of the
  snapshot loop, either the exception raised by \<open>snap_picture()\<close> or
  \<open>blink.refresh(force=True)\<close>, or the four reads of the cache that follow them.
\<close>

record camera =
  get_liveview :: "error + string"
  init_livestream :: "error + nat"
  livestream_stop :: "error option"
  snapshot :: "nat \<Rightarrow> error + cache_reads"

definition digit_char :: "nat \<Rightarrow> char" where
  "digit_char d = char_of (48 + d)"

fun str_nat :: "nat \<Rightarrow> string" where
  "str_nat n = (if n < 10 then [digit_char n] else str_nat (n div 10) @ [digit_char (n mod 10)])"

declare str_nat.simps [simp del]

datatype flow = Returned | Raised error | Fell_through

text \<open>
  The \<open>try\<close> block of \<open>mjpeg_stream\<close> (lines 361 to 401): what it has yielded, and
  whether it returned, raised, or reached its end with a URL of neither scheme.
\<close>

definition livestream_strategy ::
  "(string list \<Rightarrow> error + process) \<Rightarrow> camera \<Rightarrow> chunk list \<times> flow" where
  "livestream_strategy spawn cam =
     (case get_liveview cam of
        Inl e \<Rightarrow> ([], Raised e)
      | Inr url \<Rightarrow>
          if startswith url ''rtsps://'' then
            (case stream_via_ffmpeg spawn url of
               (frames, r) \<Rightarrow>
                 (concat (map (\<lambda>frame. mjpeg_part (Some frame)) frames),
                  (case r of Some e \<Rightarrow> Raised e | None \<Rightarrow> Returned)))
          else if startswith url ''immis://'' then
            (case init_livestream cam of
               Inl e \<Rightarrow> ([], Raised e)
             | Inr port \<Rightarrow>
                 (case stream_via_ffmpeg spawn (''rtsp://127.0.0.1:'' @ str_nat port) of
                    (frames, r) \<Rightarrow>
                      (concat (map (\<lambda>frame. mjpeg_part (Some frame)) frames),
                       (case livestream_stop cam of
                          Some e \<Rightarrow> Raised e
                        | None \<Rightarrow> (case r of Some e \<Rightarrow> Raised e | None \<Rightarrow> Returned)))))
          else ([], Fell_through))"

text \<open>
  The snapshot loop (lines 409 to 428): \<open>n\<close> rounds are left, \<open>i\<close> is the number
  of the round, \<open>last_frame\<close> the variable of that name.  An exception in a round is
  logged and the loop goes on.  The value stored in \<open>last_frame\<close> and the value
  yielded come from different reads of the cache.
\<close>

fun snapshot_loop ::
  "(nat \<Rightarrow> error + cache_reads) \<Rightarrow> nat \<Rightarrow> nat \<Rightarrow> bytes option \<Rightarrow> chunk list" where
  "snapshot_loop snap 0 i last_frame = []"
| "snapshot_loop snap (Suc n) i last_frame =
     (case snap i of
        Inl e \<Rightarrow> snapshot_loop snap n (Suc i) last_frame
      | Inr r \<Rightarrow>
          if truthy (at_test r) \<and> at_compare r \<noteq> last_frame
          then mjpeg_part (at_yield r) @ snapshot_loop snap n (Suc i) (at_store r)
          else snapshot_loop snap n (Suc i) last_frame)"

text \<open>
  \<open>mjpeg_stream\<close>: the values yielded and the exception raised to the consumer, if
  any.  \<open>except Exception\<close> catches whatever the \<open>try\<close> block raises; only its
  \<open>return\<close> ends the generator before the snapshot loop of 600 rounds.
\<close>

definition mjpeg_stream ::
  "(string list \<Rightarrow> error + process) \<Rightarrow> camera \<Rightarrow> chunk list \<times> error option" where
  "mjpeg_stream spawn cam =
     (case livestream_strategy spawn cam of
        (chunks, Returned) \<Rightarrow> (chunks, None)
      | (chunks, Raised e) \<Rightarrow> (chunks @ snapshot_loop (snapshot cam) 600 0 None, None)
      | (chunks, Fell_through) \<Rightarrow> (chunks @ snapshot_loop (snapshot cam) 600 0 None, None))"

text \<open>
  What a consumer of the multipart stream takes for the frames: the third of every four
  values.
\<close>

fun frames_of :: "'a list \<Rightarrow> 'a list" where
  "frames_of (b # h # f # t # rest) = f # frames_of rest"
| "frames_of rest = []"

text \<open>
  The cache is stable in the rounds \<open>i, \<dots>, i + n - 1\<close> when the four reads of
  each round that raises nothing give the same value.
\<close>

definition cache_stable :: "(nat \<Rightarrow> error + cache_reads) \<Rightarrow> nat \<Rightarrow> nat \<Rightarrow> bool" where
  "cache_stable snap i n \<longleftrightarrow>
     (\<forall>k\<in>{i..<i + n}.
        case snap k of
          Inl e \<Rightarrow> True
        | Inr r \<Rightarrow> at_compare r = at_test r \<and> at_store r = at_test r \<and> at_yield r = at_test r)"

text \<open>
  The images the account service hands out in rounds \<open>i, \<dots>, i + n - 1\<close>: the
  non-empty values of \<open>image_from_cache\<close> of the rounds that raise nothing.
\<close>

definition obtained_images :: "(nat \<Rightarrow> error + cache_reads) \<Rightarrow> nat \<Rightarrow> nat \<Rightarrow> bytes list" where
  "obtained_images snap i n =
     List.map_filter
       (\<lambda>k. case snap k of
               Inl e \<Rightarrow> None
             | Inr r \<Rightarrow> if truthy (at_test r) then at_test r else None)
       [i..<i + n]"

text \<open>
  The stream of the distinct snapshots: for each obtained image that differs from the one
  before it, the boundary, the header, the image and the line end.
\<close>

definition distinct_snapshots :: "(nat \<Rightarrow> error + cache_reads) \<Rightarrow> chunk list" where
  "distinct_snapshots snap =
     concat (map (\<lambda>img. [Some boundary, Some content_type, Some img, Some crlf])
               (remdups_adj (obtained_images snap 0 600)))"


section \<open>The endpoint parser \<open>IMMISStreamHandler._parse_url\<close>\<close>

text \<open>
  Strings are lists of characters with code points below 256.  \<open>str.split(sep)\<close>
  cuts at the occurrences of \<open>sep\<close> found from left to right, without overlap; no
  call in the source passes an empty separator (Python raises \<open>ValueError\<close> for
  one), for which the model returns no piece.  The list is never empty otherwise.
\<close>

function py_split :: "'a list \<Rightarrow> 'a list \<Rightarrow> 'a list list" where
  "py_split s sep =
     (if sep = [] then []
      else (case find_first sep s of
              None \<Rightarrow> [s]
            | Some i \<Rightarrow> take i s # py_split (drop (i + length sep) s) sep))"
  by pat_completeness auto
termination
proof (relation "measure (\<lambda>(s, sep). length s)", goal_cases)
  case 1
  show ?case by simp
next
  case (2 s sep i)
  from 2(2) have "i + length sep \<le> length s"
    by (rule find_first_bound)
  with 2(1) show ?case by (cases sep) auto
qed

declare py_split.simps [simp del]

text \<open>\<open>s.split(sep, 1)\<close>: at most one cut.\<close>

definition py_split1 :: "'a list \<Rightarrow> 'a list \<Rightarrow> 'a list list" where
  "py_split1 s sep =
     (case find_first sep s of
        None \<Rightarrow> [s]
      | Some i \<Rightarrow> [take i s, drop (i + length sep) s])"

text \<open>The assignment \<open>a, b = xs\<close>.\<close>

fun unpack2 :: "'a list \<Rightarrow> error + 'a \<times> 'a" where
  "unpack2 [a, b] = Inr (a, b)"
| "unpack2 (a # b # c # xs) = Inl (ValueError Too_many_values)"
| "unpack2 xs = Inl (ValueError Not_enough_values)"

definition and_then :: "error + 'a \<Rightarrow> ('a \<Rightarrow> error + 'b) \<Rightarrow> error + 'b" where
  "and_then m f = (case m of Inl e \<Rightarrow> Inl e | Inr x \<Rightarrow> f x)"

text \<open>
  \<open>int(s)\<close> on a string, base 10: white space around the literal is dropped (for
  code points below 256 these are 9 to 13, 32, 133 and 160), then come an optional sign and
  a run of digits, with single underscores allowed between digits.  An underscore that no
  digit follows makes the literal invalid.  A run of more than 4300 digits is refused (the
  interpreter's default limit), whatever follows it.  Anything left behind the run makes
  the literal invalid.
\<close>

definition int_space :: "char \<Rightarrow> bool" where
  "int_space c \<longleftrightarrow> (of_char c :: nat) \<in> {9, 10, 11, 12, 13, 32, 133, 160}"

definition is_digit :: "char \<Rightarrow> bool" where
  "is_digit c \<longleftrightarrow> 48 \<le> (of_char c :: nat) \<and> (of_char c :: nat) \<le> 57"

definition digit_val :: "char \<Rightarrow> int" where
  "digit_val c = int (of_char c) - 48"

definition int_strip :: "string \<Rightarrow> string" where
  "int_strip s = rev (dropWhile int_space (rev (dropWhile int_space s)))"

text \<open>
  The digits after the first one: \<open>(n, v)\<close> is the number of digits read and their
  value so far.  The run ends at the first character that is neither a digit nor an
  underscore; the result is the count, the value and what is left of the string.
\<close>

fun int_digits :: "string \<Rightarrow> nat \<times> int \<Rightarrow> (nat \<times> int \<times> string) option" where
  "int_digits [] (n, v) = Some (n, v, [])"
| "int_digits (c # cs) (n, v) =
     (if is_digit c then int_digits cs (Suc n, v * 10 + digit_val c)
      else if c = CHR ''_'' then
        (case cs of
           [] \<Rightarrow> None
         | d # ds \<Rightarrow>
             if is_digit d then int_digits ds (Suc n, v * 10 + digit_val d) else None)
      else Some (n, v, c # cs))"

definition int_unsigned :: "string \<Rightarrow> error + int" where
  "int_unsigned u =
     (case u of
        [] \<Rightarrow> Inl (ValueError Invalid_literal)
      | c # cs \<Rightarrow>
          if is_digit c then
            (case int_digits cs (1, digit_val c) of
               None \<Rightarrow> Inl (ValueError Invalid_literal)
             | Some (n, v, rest) \<Rightarrow>
                 if 4300 < n then Inl (ValueError Exceeds_digit_limit)
                 else if rest = [] then Inr v
                 else Inl (ValueError Invalid_literal))
          else Inl (ValueError Invalid_literal))"

definition py_int :: "string \<Rightarrow> error + int" where
  "py_int s =
     (case int_strip s of
        [] \<Rightarrow> Inl (ValueError Invalid_literal)
      | c # cs \<Rightarrow>
          if c = CHR ''+'' then int_unsigned cs
          else if c = CHR ''-'' then and_then (int_unsigned cs) (\<lambda>v. Inr (- v))
          else int_unsigned (c # cs))"

text \<open>
  The statements after the prefix is removed (app_v2.py, lines 90 to 104; the same
  statements stand in \<open>_test_immis\<close>, blink_diagnostic.py, lines 168 to 178): cut the
  path off at the first \<open>/\<close>, then split host and port at \<open>:\<close>.
\<close>

definition split_host_port_path :: "string \<Rightarrow> error + string \<times> int \<times> string" where
  "split_host_port_path url =
     and_then
       (if contains ''/'' url
        then and_then (unpack2 (py_split1 url ''/''))
               (\<lambda>(host_port, path). Inr (host_port, ''/'' @ path))
        else Inr (url, ''/''))
       (\<lambda>(host_port, path).
          if contains '':'' host_port
          then and_then (unpack2 (py_split host_port '':''))
                 (\<lambda>(host, port). and_then (py_int port) (\<lambda>n. Inr (host, n, path)))
          else Inr (host_port, 443, path))"

text \<open>\<open>_parse_url\<close>: the result is \<open>(host, port, path)\<close>.\<close>

definition parse_url :: "string \<Rightarrow> error + string \<times> int \<times> string" where
  "parse_url url =
     split_host_port_path (if startswith url ''immis://'' then drop 8 url else url)"

text \<open>The parsing at the head of \<open>_test_immis\<close>: \<open>rest = url[8:]\<close> whatever the prefix.\<close>

definition test_immis_parse :: "string \<Rightarrow> error + string \<times> int \<times> string" where
  "test_immis_parse url = split_host_port_path (drop 8 url)"

text \<open>
  The value of the \<open>session\<close> field that \<open>_build_subscription\<close> computes from
  \<open>self.path\<close> (lines 131 to 137): \<open>session_id or self.path\<close>, where an empty
  \<open>session_id\<close> counts as absent.
\<close>

definition subscription_session :: "string \<Rightarrow> string" where
  "subscription_session path =
     (let session_id =
            (if contains ''session='' path
             then Some (hd (py_split (last (py_split path ''session='')) ''&''))
             else None)
      in case session_id of
           None \<Rightarrow> path
         | Some s \<Rightarrow> if s \<noteq> [] then s else path)"

text \<open>The number a string of decimal digits denotes.\<close>

definition decimal :: "string \<Rightarrow> int" where
  "decimal p = foldl (\<lambda>v c. v * 10 + digit_val c) 0 p"

section \<open>The handler's connection state and teardown\<close>

text \<open>
  Of an asyncio \<open>StreamWriter\<close> the model keeps whether \<open>close()\<close> has been called
  on it.  Of the handler it keeps the fields that parsing, connecting and closing set.
\<close>

record stream_writer =
  closed :: bool

record IMMISStreamHandler =
  self_host :: string
  self_port :: int
  self_path :: string
  self_writer :: "stream_writer option"
  self_connected :: bool

definition IMMISStreamHandler_init :: "string \<Rightarrow> error + IMMISStreamHandler" where
  "IMMISStreamHandler_init url =
     and_then (parse_url url)
       (\<lambda>(h, p, pa). Inr \<lparr>self_host = h, self_port = p, self_path = pa,
                           self_writer = None, self_connected = False\<rparr>)"


text \<open>
  \<open>close\<close> (lines 180 to 188).  \<open>wait_closed\<close> says what awaiting
  \<open>self.writer.wait_closed()\<close> raises; the bare \<open>except\<close> swallows it.
\<close>

definition close ::
  "(stream_writer \<Rightarrow> error option) \<Rightarrow> IMMISStreamHandler \<Rightarrow> error + IMMISStreamHandler" where
  "close wait_closed h =
     (case self_writer h of
        None \<Rightarrow> Inr (h\<lparr>self_connected := False\<rparr>)
      | Some w \<Rightarrow>
          (let w' = w\<lparr>closed := True\<rparr>;
               h' = h\<lparr>self_writer := Some w'\<rparr>
           in case wait_closed w' of
                Some e \<Rightarrow> Inr (h'\<lparr>self_connected := False\<rparr>)
              | None \<Rightarrow> Inr (h'\<lparr>self_connected := False\<rparr>)))"






section \<open>The subscription probe of \<open>_test_immis\<close>\<close>

text \<open>
  The remote end as \<open>_test_immis\<close> (blink_diagnostic.py, lines 194 to 288) meets it.
  Calls of \<open>asyncio.open_connection\<close> are numbered from 0 in the order they are made;
  \<open>opens k\<close> tells whether call \<open>k\<close> comes back with a connection within its ten
  seconds, and \<open>replies k payload\<close> what follows on that connection once the payload is
  written: the write or the read raises, the read times out after five seconds, or it
  returns bytes (\<open>b''\<close> included).
\<close>

datatype reply = Write_fails error | Read_fails error | Read_timeout | Data bytes

record 'p server =
  opens :: "nat \<Rightarrow> bool"
  replies :: "nat \<Rightarrow> 'p \<Rightarrow> reply"

text \<open>The test of line 266 on the first 20 bytes.\<close>

definition video_detected :: "bytes \<Rightarrow> bool" where
  "video_detected data \<longleftrightarrow>
     contains [0x00, 0x00, 0x00, 0x01] (take 20 data) \<or> contains [0x00, 0x00, 0x01] (take 20 data)"

text \<open>
  What one attempt comes to.  \<open>json_loads\<close> stands for \<open>json.loads(data.decode())\<close>,
  \<open>None\<close> when it raises; its result is printed and nothing else.
\<close>

datatype 'r attempt = Video | Json 'r | Unparsed | Zero_bytes | Timed_out | Errored

definition classify :: "(bytes \<Rightarrow> 'r option) \<Rightarrow> bytes \<Rightarrow> 'r attempt" where
  "classify json_loads data =
     (if data \<noteq> [] then
        (if video_detected data then Video
         else (case json_loads data of Some r \<Rightarrow> Json r | None \<Rightarrow> Unparsed))
      else Zero_bytes)"

definition try_payload :: "'p server \<Rightarrow> (bytes \<Rightarrow> 'r option) \<Rightarrow> nat \<Rightarrow> 'p \<Rightarrow> 'r attempt" where
  "try_payload srv json_loads k payload =
     (if \<not> opens srv k then Errored
      else (case replies srv k payload of
              Write_fails e \<Rightarrow> Errored
            | Read_fails e \<Rightarrow> Errored
            | Read_timeout \<Rightarrow> Timed_out
            | Data data \<Rightarrow> classify json_loads data))"

text \<open>\<open>writer.close()\<close> (line 283) is reached unless the attempt returned or raised.\<close>

fun closes_writer :: "'r attempt \<Rightarrow> bool" where
  "closes_writer Video = False"
| "closes_writer Errored = False"
| "closes_writer _ = True"

text \<open>
  The run so far: the number of \<open>open_connection\<close> calls, the number of
  \<open>writer.close()\<close> calls, and for every candidate tried its name, the number of the
  connection it was sent on and what came of it.
\<close>

record 'r probe =
  connections :: nat
  closes :: nat
  attempts :: "(string \<times> nat \<times> 'r attempt) list"

datatype verdict = Connection_failed | Subscription_ok string | Subscription_failed

definition record_attempt :: "string \<Rightarrow> 'r attempt \<Rightarrow> 'r probe \<Rightarrow> 'r probe" where
  "record_attempt name outcome st =
     st\<lparr>connections := connections st + 1,
        closes := closes st + (if closes_writer outcome then 1 else 0),
        attempts := attempts st @ [(name, connections st, outcome)]\<rparr>"

text \<open>
  The loop over the candidates (lines 243 to 288): every round opens a connection of its
  own; video data ends the function, anything else leads to the next candidate.
\<close>

fun subscribe_loop ::
  "'p server \<Rightarrow> (bytes \<Rightarrow> 'r option) \<Rightarrow> (string \<times> 'p) list \<Rightarrow> 'r probe \<Rightarrow> verdict \<times> 'r probe" where
  "subscribe_loop srv json_loads [] st = (Subscription_failed, st)"
| "subscribe_loop srv json_loads ((name, payload) # rest) st =
     (let outcome = try_payload srv json_loads (connections st) payload;
          st' = record_attempt name outcome st
      in case outcome of
           Video \<Rightarrow> (Subscription_ok name, st')
         | _ \<Rightarrow> subscribe_loop srv json_loads rest st')"

text \<open>The three candidates of lines 216 to 241, each with its serialised payload.\<close>

definition payloads :: "'p \<Rightarrow> 'p \<Rightarrow> 'p \<Rightarrow> (string \<times> 'p) list" where
  "payloads simple with_auth full =
     [(''Simple'', simple), (''With Auth'', with_auth), (''Full'', full)]"

text \<open>
  \<open>_test_immis\<close> from the TLS test of phase 5.2 on: one connection is opened first
  and, when that fails, the function returns; the candidates follow.
\<close>

definition test_immis ::
  "'p server \<Rightarrow> (bytes \<Rightarrow> 'r option) \<Rightarrow> (string \<times> 'p) list \<Rightarrow> verdict \<times> 'r probe" where
  "test_immis srv json_loads candidates =
     (if \<not> opens srv 0
      then (Connection_failed, \<lparr>connections = 1, closes = 0, attempts = []\<rparr>)
      else subscribe_loop srv json_loads candidates
             \<lparr>connections = 1, closes = 0, attempts = []\<rparr>)"


text \<open>
  What the claims mean by the first occurrence of a marker at or after an offset.
\<close>

definition first_occurrence :: "'a list \<Rightarrow> 'a list \<Rightarrow> nat \<Rightarrow> nat \<Rightarrow> bool" where
  "first_occurrence buffer sub start i \<longleftrightarrow>
     start \<le> i \<and> i + length sub \<le> length buffer \<and>
     py_slice buffer i (i + length sub) = sub \<and>
     (\<forall>j\<in>{start..<i}. py_slice buffer j (j + length sub) \<noteq> sub)"

definition endswith :: "'a list \<Rightarrow> 'a list \<Rightarrow> bool" where
  "endswith s p \<longleftrightarrow> length p \<le> length s \<and> drop (length s - length p) s = p"

text \<open>
  Bytes in which no frame is complete: no start marker, or no end marker at or after the
  first start marker.
\<close>

definition unterminated :: "bytes \<Rightarrow> bool" where
  "unterminated data \<longleftrightarrow>
     (case bytes_find data SOI 0 of None \<Rightarrow> True | Some s \<Rightarrow> bytes_find data EOI s = None)"

section \<open>Example environments\<close>

text \<open>
  A round in which the four reads of the cache give the same value.  A camera whose cache
  holds the same image in rounds 0 and 1, whose round 2 raises, whose round 3 gives empty
  bytes, round 4 a new image and every later round nothing; and a machine on which
  \<open>ffmpeg\<close> cannot be started.
\<close>

definition steady :: "bytes option \<Rightarrow> cache_reads" where
  "steady v = \<lparr>at_test = v, at_compare = v, at_store = v, at_yield = v\<rparr>"

definition demo_snapshot :: "nat \<Rightarrow> error + cache_reads" where
  "demo_snapshot i =
     (if i = 0 then Inr (steady (Some [0x01]))
      else if i = 1 then Inr (steady (Some [0x01]))
      else if i = 2 then Inl (Failure 2)
      else if i = 3 then Inr (steady (Some []))
      else if i = 4 then Inr (steady (Some [0x02]))
      else Inr (steady None))"

definition demo_camera :: "error + string \<Rightarrow> camera" where
  "demo_camera liveview =
     \<lparr>get_liveview = liveview, init_livestream = Inl (Failure 1), livestream_stop = None,
      snapshot = demo_snapshot\<rparr>"

definition no_ffmpeg :: "string list \<Rightarrow> error + process" where
  "no_ffmpeg cmd = Inl (Failure 3)"

text \<open>
  An \<open>ffmpeg\<close> that starts and whose output ends at once, as when it cannot reach the
  relay and exits; and one that delivers the same JPEG image twice before a read fails.
\<close>

definition silent_ffmpeg :: "string list \<Rightarrow> error + process" where
  "silent_ffmpeg cmd = Inr \<lparr>stdout_reads = [], terminate_raises = None\<rparr>"

definition still_frame :: bytes where
  "still_frame = [0xFF, 0xD8, 0x07, 0xFF, 0xD9]"

definition failing_ffmpeg :: "string list \<Rightarrow> error + process" where
  "failing_ffmpeg cmd =
     Inr \<lparr>stdout_reads = [Inr (still_frame @ still_frame), Inl (Failure 4)],
          terminate_raises = None\<rparr>"

text \<open>
  A camera whose cache is refreshed, in round 0, while the generator is suspended between
  the assignment to \<open>last_frame\<close> and the \<open>yield\<close> of the image, and holds the new
  image in round 1.
\<close>

definition racing_snapshot :: "nat \<Rightarrow> error + cache_reads" where
  "racing_snapshot i =
     (if i = 0 then
        Inr \<lparr>at_test = Some [0x0A], at_compare = Some [0x0A], at_store = Some [0x0A],
             at_yield = Some [0x0B]\<rparr>
      else if i = 1 then Inr (steady (Some [0x0B]))
      else Inr (steady None))"

definition racing_camera :: camera where
  "racing_camera =
     \<lparr>get_liveview = Inl (Failure 0), init_livestream = Inl (Failure 1), livestream_stop = None,
      snapshot = racing_snapshot\<rparr>"

text \<open>A camera whose proxy starts, on port 8554.\<close>

definition proxy_camera :: camera where
  "proxy_camera =
     \<lparr>get_liveview = Inr ''immis://relay.example.net:443/live'', init_livestream = Inr 8554,
      livestream_stop = None, snapshot = demo_snapshot\<rparr>"

text \<open>
  A remote end that accepts every connection and answers \<open>{}\<close> on all of them but
  the one numbered 3, where it sends an H.264 start code; and a stand-in for the JSON
  parser that accepts \<open>{}\<close> alone.
\<close>

definition demo_json :: "bytes \<Rightarrow> unit option" where
  "demo_json data = (if data = [0x7B, 0x7D] then Some () else None)"

definition demo_server :: "nat server" where
  "demo_server =
     \<lparr>opens = (\<lambda>k. True),
      replies = (\<lambda>k payload. if k = 3 then Data [0x00, 0x00, 0x00, 0x01, 0x67] else Data [0x7B, 0x7D])\<rparr>"

text \<open>
  The second half of \<open>split_host_port_path\<close>: host and port from the part before
  the path.
\<close>

definition split_port :: "string \<Rightarrow> string \<Rightarrow> error + string \<times> int \<times> string" where
  "split_port hp path =
     (if CHR '':'' \<in> set hp
      then and_then (unpack2 (py_split hp '':''))
             (\<lambda>(host, port). and_then (py_int port) (\<lambda>n. Inr (host, n, path)))
      else Inr (hp, 443, path))"



section \<open>Searching: \<open>find_first\<close> and \<open>bytes_find\<close>\<close>

lemma find_first_Some_iff:
  "find_first sub xs = Some i \<longleftrightarrow>
     i + length sub \<le> length xs \<and> take (length sub) (drop i xs) = sub \<and>
     (\<forall>j<i. take (length sub) (drop j xs) \<noteq> sub)"
proof (induction xs arbitrary: i)
  case Nil
  then show ?case by auto
next
  case (Cons x xs)
  show ?case
  proof (cases "take (length sub) (x # xs) = sub")
    case True
    have "length (take (length sub) (x # xs)) \<le> length (x # xs)" by simp
    with True have len: "length sub \<le> length (x # xs)" by simp
    show ?thesis
    proof
      assume "find_first sub (x # xs) = Some i"
      with True have "i = 0" by simp
      with True len show "i + length sub \<le> length (x # xs) \<and> take (length sub) (drop i (x # xs)) = sub \<and>
     (\<forall>j<i. take (length sub) (drop j (x # xs)) \<noteq> sub)" by simp
    next
      assume a: "i + length sub \<le> length (x # xs) \<and> take (length sub) (drop i (x # xs)) = sub \<and>
     (\<forall>j<i. take (length sub) (drop j (x # xs)) \<noteq> sub)"
      have "i = 0"
      proof (rule ccontr)
        assume "i \<noteq> 0"
        then have "0 < i" by simp
        with a have "take (length sub) (drop 0 (x # xs)) \<noteq> sub" by blast
        with True show False by simp
      qed
      with True show "find_first sub (x # xs) = Some i" by simp
    qed
  next
    case False
    show ?thesis
    proof (cases i)
      case 0
      with False show ?thesis by simp
    next
      case (Suc k)
      have "(\<forall>j<Suc k. take (length sub) (drop j (x # xs)) \<noteq> sub) \<longleftrightarrow>
            (\<forall>j<k. take (length sub) (drop j xs) \<noteq> sub)"
      proof
        assume h: "\<forall>j<Suc k. take (length sub) (drop j (x # xs)) \<noteq> sub"
        show "\<forall>j<k. take (length sub) (drop j xs) \<noteq> sub"
        proof (intro allI impI)
          fix j assume "j < k"
          then have "Suc j < Suc k" by simp
          with h have "take (length sub) (drop (Suc j) (x # xs)) \<noteq> sub" by blast
          then show "take (length sub) (drop j xs) \<noteq> sub" by simp
        qed
      next
        assume h: "\<forall>j<k. take (length sub) (drop j xs) \<noteq> sub"
        show "\<forall>j<Suc k. take (length sub) (drop j (x # xs)) \<noteq> sub"
        proof (intro allI impI)
          fix j assume "j < Suc k"
          show "take (length sub) (drop j (x # xs)) \<noteq> sub"
          proof (cases j)
            case 0
            with False show ?thesis by simp
          next
            case (Suc m)
            with \<open>j < Suc k\<close> h show ?thesis by simp
          qed
        qed
      qed
      with False Suc Cons.IH [of k] show ?thesis by auto
    qed
  qed
qed

lemma bytes_find_Some_iff:
  "bytes_find buffer sub start = Some i \<longleftrightarrow>
     start \<le> i \<and> i + length sub \<le> length buffer \<and> py_slice buffer i (i + length sub) = sub \<and>
     (\<forall>j. start \<le> j \<and> j < i \<longrightarrow> py_slice buffer j (j + length sub) \<noteq> sub)"
proof (cases "length buffer < start")
  case True
  then show ?thesis by (auto simp: bytes_find_def)
next
  case False
  have *: "(\<forall>j<k. take (length sub) (drop j (drop start buffer)) \<noteq> sub) \<longleftrightarrow>
        (\<forall>j. start \<le> j \<and> j < start + k \<longrightarrow> take (length sub) (drop j buffer) \<noteq> sub)" for k
  proof
    assume h: "\<forall>j<k. take (length sub) (drop j (drop start buffer)) \<noteq> sub"
    show "\<forall>j. start \<le> j \<and> j < start + k \<longrightarrow> take (length sub) (drop j buffer) \<noteq> sub"
    proof (intro allI impI)
      fix j assume "start \<le> j \<and> j < start + k"
      then have "j - start < k" "j = (j - start) + start" by auto
      with h have "take (length sub) (drop (j - start) (drop start buffer)) \<noteq> sub" by blast
      with \<open>j = (j - start) + start\<close> show "take (length sub) (drop j buffer) \<noteq> sub"
        by (metis drop_drop)
    qed
  next
    assume h: "\<forall>j. start \<le> j \<and> j < start + k \<longrightarrow> take (length sub) (drop j buffer) \<noteq> sub"
    show "\<forall>j<k. take (length sub) (drop j (drop start buffer)) \<noteq> sub"
    proof (intro allI impI)
      fix j assume "j < k"
      with h have "take (length sub) (drop (j + start) buffer) \<noteq> sub" by simp
      then show "take (length sub) (drop j (drop start buffer)) \<noteq> sub" by simp
    qed
  qed
  show ?thesis
  proof
    assume "bytes_find buffer sub start = Some i"
    with False obtain k where k: "find_first sub (drop start buffer) = Some k" "i = start + k"
      by (auto simp: bytes_find_def)
    from k(1) have "k + length sub \<le> length (drop start buffer)"
      "take (length sub) (drop k (drop start buffer)) = sub"
      "\<forall>j<k. take (length sub) (drop j (drop start buffer)) \<noteq> sub"
      by (simp_all add: find_first_Some_iff)
    with k(2) False * [of k] show "start \<le> i \<and> i + length sub \<le> length buffer \<and> py_slice buffer i (i + length sub) = sub \<and>
     (\<forall>j. start \<le> j \<and> j < i \<longrightarrow> py_slice buffer j (j + length sub) \<noteq> sub)"
      by (simp add: py_slice_def add.commute)
  next
    assume a: "start \<le> i \<and> i + length sub \<le> length buffer \<and> py_slice buffer i (i + length sub) = sub \<and>
     (\<forall>j. start \<le> j \<and> j < i \<longrightarrow> py_slice buffer j (j + length sub) \<noteq> sub)"
    define k where "k = i - start"
    with a have i: "i = start + k" by simp
    from a i have "k + length sub \<le> length (drop start buffer)" by auto
    moreover from a i have "take (length sub) (drop k (drop start buffer)) = sub"
      by (simp add: py_slice_def add.commute)
    moreover from a i * [of k] have "\<forall>j<k. take (length sub) (drop j (drop start buffer)) \<noteq> sub"
      by (simp add: py_slice_def)
    ultimately have "find_first sub (drop start buffer) = Some k"
      by (simp add: find_first_Some_iff)
    with False i show "bytes_find buffer sub start = Some i"
      by (simp add: bytes_find_def)
  qed
qed


lemma bytes_find_append:
  assumes "bytes_find a sub s = Some i"
  shows "bytes_find (a @ b) sub s = Some i"
proof -
  from assms have h: "s \<le> i" "i + length sub \<le> length a" "py_slice a i (i + length sub) = sub"
    "\<forall>j. s \<le> j \<and> j < i \<longrightarrow> py_slice a j (j + length sub) \<noteq> sub"
    by (simp_all add: bytes_find_Some_iff)
  have "py_slice (a @ b) j (j + length sub) = py_slice a j (j + length sub)" if "j \<le> i" for j
    using that h(2) by (simp add: py_slice_def)
  with h show ?thesis
    by (simp add: bytes_find_Some_iff)
qed

lemma extract_frames_None1:
  "bytes_find buffer SOI 0 = None \<Longrightarrow> extract_frames buffer = ([], buffer)"
  by (subst extract_frames.simps) simp

lemma extract_frames_None2:
  "bytes_find buffer SOI 0 = Some start \<Longrightarrow> bytes_find buffer EOI start = None \<Longrightarrow>
   extract_frames buffer = ([], buffer)"
  by (subst extract_frames.simps) simp

lemma extract_frames_Some:
  "bytes_find buffer SOI 0 = Some start \<Longrightarrow> bytes_find buffer EOI start = Some e \<Longrightarrow>
   extract_frames buffer =
     (py_slice buffer start (e + 2) # fst (extract_frames (drop (e + 2) buffer)),
      snd (extract_frames (drop (e + 2) buffer)))"
  by (subst extract_frames.simps) (simp split: prod.splits)

lemma extract_frames_append:
  "extract_frames (a @ b) =
     (fst (extract_frames a) @ fst (extract_frames (snd (extract_frames a) @ b)),
      snd (extract_frames (snd (extract_frames a) @ b)))"
proof (induction a rule: extract_frames.induct)
  case (1 buffer)
  show ?case
  proof (cases "bytes_find buffer SOI 0")
    case None
    then show ?thesis by (simp add: extract_frames_None1)
  next
    case (Some start)
    show ?thesis
    proof (cases "bytes_find buffer EOI start")
      case None
      with Some show ?thesis by (simp add: extract_frames_None2)
    next
      case (Some e)
      note s = \<open>bytes_find buffer SOI 0 = Some start\<close>
      from Some have e2: "e + 2 \<le> length buffer"
        using bytes_find_bound [of buffer EOI start e] by (simp add: EOI_def)
      have 1: "bytes_find (buffer @ b) SOI 0 = Some start"
        using s by (rule bytes_find_append)
      have 2: "bytes_find (buffer @ b) EOI start = Some e"
        using Some by (rule bytes_find_append)
      have 3: "py_slice (buffer @ b) start (e + 2) = py_slice buffer start (e + 2)"
        using e2 by (simp add: py_slice_def)
      have 4: "drop (e + 2) (buffer @ b) = drop (e + 2) buffer @ b"
        using e2 by simp
      from "1.IH" [OF s Some] 3 4 show ?thesis
        by (simp add: extract_frames_Some [OF 1 2] extract_frames_Some [OF s Some])
    qed
  qed
qed

lemma extract_frames_residue:
  "extract_frames (snd (extract_frames buffer)) = ([], snd (extract_frames buffer))"
proof (induction buffer rule: extract_frames.induct)
  case (1 buffer)
  show ?case
  proof (cases "bytes_find buffer SOI 0")
    case None
    then show ?thesis by (simp add: extract_frames_None1)
  next
    case (Some start)
    show ?thesis
    proof (cases "bytes_find buffer EOI start")
      case None
      with Some show ?thesis by (simp add: extract_frames_None2)
    next
      case (Some e)
      note s = \<open>bytes_find buffer SOI 0 = Some start\<close>
      from "1.IH" [OF s Some] show ?thesis
        by (simp add: extract_frames_Some [OF s Some])
    qed
  qed
qed


lemma bytes_find_first_occurrence:
  "bytes_find buffer sub start = Some i \<longleftrightarrow> first_occurrence buffer sub start i"
  by (auto simp: bytes_find_Some_iff first_occurrence_def)

lemma bytes_find_None_iff:
  "bytes_find buffer sub start = None \<longleftrightarrow> (\<nexists>i. first_occurrence buffer sub start i)"
  by (metis bytes_find_first_occurrence not_Some_eq)

lemma find_first_pair_append:
  "a \<noteq> b \<Longrightarrow> find_first [a, b] p = None \<Longrightarrow> find_first [a, b] (p @ a # b # r) = Some (length p)"
proof (induction p)
  case Nil
  then show ?case by simp
next
  case (Cons x xs)
  from Cons.prems(2) have 1: "take 2 (x # xs) \<noteq> [a, b]" and 2: "find_first [a, b] xs = None"
    by (auto split: if_splits)
  from 1 Cons.prems(1) have "take 2 (x # xs @ a # b # r) \<noteq> [a, b]"
    by (cases xs) auto
  with Cons.IH [OF Cons.prems(1) 2] show ?case by simp
qed

lemma find_EOI_append:
  "find_first EOI p = None \<Longrightarrow> find_first EOI (p @ EOI @ r) = Some (length p)"
  using find_first_pair_append [of "0xFF" "0xD9" p r] by (simp add: EOI_def)

lemma bytes_find_SOI_head: "bytes_find (SOI @ r) SOI 0 = Some 0"
  by (simp add: bytes_find_def SOI_def)

lemma bytes_find_EOI_frame:
  assumes "find_first EOI p = None"
  shows "bytes_find (SOI @ p @ EOI @ r) EOI 0 = Some (length p + 2)"
proof -
  have "find_first EOI (SOI @ p @ EOI @ r) = map_option Suc (map_option Suc (find_first EOI (p @ EOI @ r)))"
    by (simp add: SOI_def EOI_def)
  with find_EOI_append [OF assms, of r] show ?thesis
    by (simp add: bytes_find_def)
qed

lemma extract_frames_Nil: "extract_frames [] = ([], [])"
  by (subst extract_frames.simps) (simp add: bytes_find_def SOI_def)

lemma extract_frames_frame:
  assumes "find_first EOI p = None"
  shows "extract_frames (SOI @ p @ EOI @ r) =
           ((SOI @ p @ EOI) # fst (extract_frames r), snd (extract_frames r))"
proof -
  have 1: "py_slice (SOI @ p @ EOI @ r) 0 (length p + 2 + 2) = SOI @ p @ EOI"
    by (simp add: py_slice_def SOI_def EOI_def)
  have 2: "drop (length p + 2 + 2) (SOI @ p @ EOI @ r) = r"
    by (simp add: SOI_def EOI_def)
  show ?thesis
    using extract_frames_Some [OF bytes_find_SOI_head bytes_find_EOI_frame [OF assms]]
    by (simp only: 1 2)
qed

lemma extract_frames_step:
  assumes "extract_frames buffer = (frame # frames, rest)"
  obtains start e where "bytes_find buffer SOI 0 = Some start" "bytes_find buffer EOI start = Some e"
    "frame = py_slice buffer start (e + 2)" "extract_frames (drop (e + 2) buffer) = (frames, rest)"
proof (cases "bytes_find buffer SOI 0")
  case None
  with assms show ?thesis by (simp add: extract_frames_None1)
next
  case (Some start)
  show ?thesis
  proof (cases "bytes_find buffer EOI start")
    case None
    with Some assms show ?thesis by (simp add: extract_frames_None2)
  next
    case (Some e)
    note s = \<open>bytes_find buffer SOI 0 = Some start\<close>
    from assms extract_frames_Some [OF s Some]
    have "frame = py_slice buffer start (e + 2)" "extract_frames (drop (e + 2) buffer) = (frames, rest)"
      by (simp_all add: prod_eq_iff)
    with s Some that show ?thesis by blast
  qed
qed

lemma take2_drop:
  assumes "take 2 (drop i xs) = [a, b]"
  shows "xs ! i = a \<and> xs ! Suc i = b"
proof -
  from assms have "length (take 2 (drop i xs)) = 2" by simp
  then have len: "i + 2 \<le> length xs" by (simp add: min_def split: if_splits)
  have "take 2 (drop i xs) ! 0 = xs ! i" "take 2 (drop i xs) ! 1 = xs ! Suc i"
    using len by simp_all
  with assms show ?thesis by simp
qed

lemma frame_markers:
  assumes s: "bytes_find buffer SOI 0 = Some start" and e: "bytes_find buffer EOI start = Some e"
  shows "startswith (py_slice buffer start (e + 2)) SOI \<and> endswith (py_slice buffer start (e + 2)) EOI \<and>
         4 \<le> length (py_slice buffer start (e + 2))"
proof -
  from s have s1: "start + 2 \<le> length buffer" "take 2 (drop start buffer) = SOI"
    by (simp_all add: bytes_find_Some_iff py_slice_def SOI_def)
  from e have e1: "start \<le> e" "e + 2 \<le> length buffer" "take 2 (drop e buffer) = EOI"
    by (simp_all add: bytes_find_Some_iff py_slice_def EOI_def)
  have "e \<noteq> start"
    using s1(2) e1(3) by (auto simp: SOI_def EOI_def)
  moreover have "e \<noteq> start + 1"
  proof
    assume "e = start + 1"
    with e1 have "buffer ! Suc start = 0xFF"
      using take2_drop [of "Suc start" buffer "0xFF" "0xD9"] by (simp add: EOI_def)
    moreover from s1 have "buffer ! Suc start = 0xD8"
      using take2_drop [of start buffer "0xFF" "0xD8"] by (simp add: SOI_def)
    ultimately show False by simp
  qed
  ultimately have ge: "start + 2 \<le> e" using e1(1) by simp
  then have len: "length (py_slice buffer start (e + 2)) = e + 2 - start"
    using e1(2) by (simp add: py_slice_def)
  have "min 2 (e + 2 - start) = 2"
    using ge by simp
  then have "take 2 (py_slice buffer start (e + 2)) = SOI"
    using s1(2) by (simp add: py_slice_def)
  moreover have "drop (e - start) (py_slice buffer start (e + 2)) = EOI"
    using ge e1 by (simp add: py_slice_def drop_take)
  moreover have "length SOI = 2" "length EOI = 2"
    by (simp_all add: SOI_def EOI_def)
  moreover have "e + 2 - start - 2 = e - start" "2 \<le> e + 2 - start" "4 \<le> e + 2 - start"
    using ge by simp_all
  ultimately show ?thesis
    unfolding startswith_def endswith_def len by presburger
qed


lemma extract_frames_complete:
  "\<forall>f\<in>set (fst (extract_frames buffer)). startswith f SOI \<and> endswith f EOI \<and> 4 \<le> length f"
proof (induction buffer rule: extract_frames.induct)
  case (1 buffer)
  show ?case
  proof (cases "bytes_find buffer SOI 0")
    case None
    then show ?thesis by (simp add: extract_frames_None1)
  next
    case (Some start)
    show ?thesis
    proof (cases "bytes_find buffer EOI start")
      case None
      with Some show ?thesis by (simp add: extract_frames_None2)
    next
      case (Some e)
      note s = \<open>bytes_find buffer SOI 0 = Some start\<close>
      from "1.IH" [OF s Some] frame_markers [OF s Some] show ?thesis
        by (simp add: extract_frames_Some [OF s Some])
    qed
  qed
qed

lemma stream_loop_single:
  "stream_loop [] [Inr buffer] = (fst (extract_frames buffer), snd (extract_frames buffer), None)"
  by (cases "buffer = []") (simp_all add: extract_frames_Nil split: prod.splits)

section \<open>Frame boundaries\<close>

text \<open>
  Claim C2, as the code has it.  A frame the extraction yields runs from the first start
  marker \<open>FF D8\<close> of the buffer to the first end marker \<open>FF D9\<close> at or after it, both
  included, and the extraction goes on behind it; every frame yielded starts with
  \<open>FF D8\<close>, ends with \<open>FF D9\<close> and has at least four bytes.  A buffer made of
  \<open>FF D8\<close>, \<open>p\<close>, \<open>FF D9\<close>, \<open>FF D8\<close>, \<open>q\<close>, \<open>FF D9\<close> gives exactly
  the two frames of \<open>length p + 4\<close> and \<open>length q + 4\<close> bytes, in that order,
  provided neither payload contains the pair \<open>FF D9\<close>.  A start marker that no end
  marker follows yields nothing and the bytes stay in the buffer.  Feeding the buffer as
  one chunk to the read loop gives the same frames.
\<close>

theorem frame_boundaries:
  "(extract_frames buffer = (frame # frames, rest) \<longrightarrow>
      (\<exists>start e. first_occurrence buffer SOI 0 start \<and> first_occurrence buffer EOI start e \<and>
         frame = py_slice buffer start (e + 2) \<and>
         extract_frames (drop (e + 2) buffer) = (frames, rest))) \<and>
   (\<forall>f\<in>set (fst (extract_frames buffer)). startswith f SOI \<and> endswith f EOI \<and> 4 \<le> length f) \<and>
   (\<not> contains EOI p \<and> \<not> contains EOI q \<longrightarrow>
      extract_frames (SOI @ p @ EOI @ SOI @ q @ EOI) = ([SOI @ p @ EOI, SOI @ q @ EOI], []) \<and>
      length (SOI @ p @ EOI) = length p + 4 \<and> length (SOI @ q @ EOI) = length q + 4) \<and>
   (first_occurrence held SOI 0 start \<and> (\<nexists>e. first_occurrence held EOI start e) \<longrightarrow>
      extract_frames held = ([], held)) \<and>
   stream_loop [] [Inr buffer] = (fst (extract_frames buffer), snd (extract_frames buffer), None)"
proof (intro conjI impI)
  assume "extract_frames buffer = (frame # frames, rest)"
  then obtain start e where "bytes_find buffer SOI 0 = Some start"
    "bytes_find buffer EOI start = Some e" "frame = py_slice buffer start (e + 2)"
    "extract_frames (drop (e + 2) buffer) = (frames, rest)"
    by (rule extract_frames_step)
  then show "\<exists>start e. first_occurrence buffer SOI 0 start \<and> first_occurrence buffer EOI start e \<and>
         frame = py_slice buffer start (e + 2) \<and>
         extract_frames (drop (e + 2) buffer) = (frames, rest)"
    by (auto simp: bytes_find_first_occurrence)
next
  show "\<forall>f\<in>set (fst (extract_frames buffer)). startswith f SOI \<and> endswith f EOI \<and> 4 \<le> length f"
    by (rule extract_frames_complete)
next
  assume a: "\<not> contains EOI p \<and> \<not> contains EOI q"
  then have p: "find_first EOI p = None" and q: "find_first EOI q = None"
    by (simp_all add: contains_def)
  have "extract_frames (SOI @ q @ EOI) = ([SOI @ q @ EOI], [])"
    using extract_frames_frame [OF q, of "[]"] by (simp add: extract_frames_Nil)
  then show "extract_frames (SOI @ p @ EOI @ SOI @ q @ EOI) = ([SOI @ p @ EOI, SOI @ q @ EOI], [])"
    using extract_frames_frame [OF p, of "SOI @ q @ EOI"] by simp
  show "length (SOI @ p @ EOI) = length p + 4" "length (SOI @ q @ EOI) = length q + 4"
    by (simp_all add: SOI_def EOI_def)
next
  assume "first_occurrence held SOI 0 start \<and> (\<nexists>e. first_occurrence held EOI start e)"
  then have "bytes_find held SOI 0 = Some start" "bytes_find held EOI start = None"
    by (simp_all add: bytes_find_first_occurrence bytes_find_None_iff)
  then show "extract_frames held = ([], held)"
    by (rule extract_frames_None2)
next
  show "stream_loop [] [Inr buffer] = (fst (extract_frames buffer), snd (extract_frames buffer), None)"
    by (rule stream_loop_single)
qed

theorem frame_boundaries_witness:
  "extract_frames [0x01, 0xFF, 0xD8, 0x07, 0xFF, 0xD9, 0xFF, 0xD8, 0xFF] =
     ([[0xFF, 0xD8, 0x07, 0xFF, 0xD9]], [0xFF, 0xD8, 0xFF]) \<and>
   (\<exists>start e.
      first_occurrence [0x01, 0xFF, 0xD8, 0x07, 0xFF, 0xD9, 0xFF, 0xD8, 0xFF] SOI 0 start \<and>
      first_occurrence [0x01, 0xFF, 0xD8, 0x07, 0xFF, 0xD9, 0xFF, 0xD8, 0xFF] EOI start e \<and>
      [0xFF, 0xD8, 0x07, 0xFF, 0xD9 :: byte] =
        py_slice [0x01, 0xFF, 0xD8, 0x07, 0xFF, 0xD9, 0xFF, 0xD8, 0xFF] start (e + 2) \<and>
      extract_frames (drop (e + 2) [0x01, 0xFF, 0xD8, 0x07, 0xFF, 0xD9, 0xFF, 0xD8, 0xFF]) =
        ([], [0xFF, 0xD8, 0xFF])) \<and>
   startswith [0xFF, 0xD8, 0x07, 0xFF, 0xD9] SOI \<and> endswith [0xFF, 0xD8, 0x07, 0xFF, 0xD9] EOI \<and>
   \<not> contains EOI [0x07] \<and> \<not> contains EOI [] \<and>
   extract_frames (SOI @ [0x07] @ EOI @ SOI @ [] @ EOI) = ([SOI @ [0x07] @ EOI, SOI @ [] @ EOI], []) \<and>
   first_occurrence [0xFF, 0xD8, 0xFF] SOI 0 0 \<and>
   extract_frames [0xFF, 0xD8, 0xFF] = ([], [0xFF, 0xD8, 0xFF])"
proof -
  have e: "extract_frames [0x01, 0xFF, 0xD8, 0x07, 0xFF, 0xD9, 0xFF, 0xD8, 0xFF] =
             ([[0xFF, 0xD8, 0x07, 0xFF, 0xD9]], [0xFF, 0xD8, 0xFF])"
    by code_simp
  have c: "\<not> contains EOI [0x07 :: byte]" "\<not> contains EOI ([] :: bytes)"
    by (simp_all add: contains_def EOI_def)
  have h: "first_occurrence [0xFF, 0xD8, 0xFF] SOI 0 0"
    by (simp add: first_occurrence_def py_slice_def SOI_def)
  have "bytes_find [0xFF, 0xD8, 0xFF :: byte] EOI 0 = None"
    by (simp add: bytes_find_def EOI_def)
  then have n: "\<nexists>e. first_occurrence [0xFF, 0xD8, 0xFF :: byte] EOI 0 e"
    using bytes_find_None_iff by blast
  from frame_boundaries
         [of "[0x01, 0xFF, 0xD8, 0x07, 0xFF, 0xD9, 0xFF, 0xD8, 0xFF]" "[0xFF, 0xD8, 0x07, 0xFF, 0xD9]"
             "[]" "[0xFF, 0xD8, 0xFF]" "[0x07]" "[]" "[0xFF, 0xD8, 0xFF]" 0]
    e c h n
  show ?thesis by simp
qed

theorem two_frames_counterexample:
  "extract_frames (SOI @ [0xFF, 0xD9, 0xFF, 0xD8] @ EOI @ SOI @ [] @ EOI) =
     ([[0xFF, 0xD8, 0xFF, 0xD9], [0xFF, 0xD8, 0xFF, 0xD9], [0xFF, 0xD8, 0xFF, 0xD9]], []) \<and>
   map length (fst (extract_frames (SOI @ [0xFF, 0xD9, 0xFF, 0xD8] @ EOI @ SOI @ [] @ EOI))) \<noteq>
     [length [0xFF, 0xD9, 0xFF, 0xD8 :: byte] + 4, length ([] :: bytes) + 4]"
  by code_simp

section \<open>Chunk boundaries\<close>



lemma extract_frames_fst_snd:
  "extract_frames b = (fst (extract_frames b), snd (extract_frames b))"
  by simp

lemma stream_loop_chunks:
  "[] \<notin> set chunks \<Longrightarrow> extract_frames buffer = ([], buffer) \<Longrightarrow>
   stream_loop buffer (map Inr chunks) =
     (fst (extract_frames (buffer @ concat chunks)), snd (extract_frames (buffer @ concat chunks)), None)"
proof (induction chunks arbitrary: buffer)
  case Nil
  then show ?case by simp
next
  case (Cons c cs)
  let ?b = "snd (extract_frames (buffer @ c))"
  from Cons.prems have c: "c \<noteq> []" and cs: "[] \<notin> set cs" by auto
  have IH: "stream_loop ?b (map Inr cs) =
     (fst (extract_frames (?b @ concat cs)), snd (extract_frames (?b @ concat cs)), None)"
    using cs extract_frames_residue by (rule Cons.IH)
  have "extract_frames ((buffer @ c) @ concat cs) =
     (fst (extract_frames (buffer @ c)) @ fst (extract_frames (?b @ concat cs)),
      snd (extract_frames (?b @ concat cs)))"
    by (rule extract_frames_append)
  with c IH show ?case
    by (simp add: case_prod_unfold)
qed

lemma stream_loop_concat:
  assumes "[] \<notin> set chunks"
  shows "stream_loop [] (map Inr chunks) = stream_loop [] [Inr (concat chunks)]"
  using stream_loop_chunks [OF assms extract_frames_Nil] by (simp only: stream_loop_single append_Nil)

lemma bytes_find_EOI_end:
  assumes "bytes_find xs EOI s = None" "s \<le> length xs"
  shows "bytes_find (xs @ EOI) EOI s = Some (length xs)"
proof -
  from assms have "find_first EOI (drop s xs) = None"
    by (simp add: bytes_find_def)
  then have "find_first EOI (drop s xs @ EOI @ []) = Some (length (drop s xs))"
    by (rule find_EOI_append)
  with assms(2) show ?thesis
    by (simp add: bytes_find_def)
qed

lemma extract_frames_pending:
  assumes s: "bytes_find xs SOI 0 = Some s" and e: "bytes_find xs EOI s = None"
  shows "extract_frames (xs @ EOI) = ([drop s xs @ EOI], [])"
proof -
  from s have le: "s \<le> length xs"
    using bytes_find_bound [of xs SOI 0 s] by simp
  have 1: "bytes_find (xs @ EOI) SOI 0 = Some s"
    using s by (rule bytes_find_append)
  have 2: "bytes_find (xs @ EOI) EOI s = Some (length xs)"
    using e le by (rule bytes_find_EOI_end)
  have 3: "py_slice (xs @ EOI) s (length xs + 2) = drop s xs @ EOI"
    using le by (simp add: py_slice_def EOI_def)
  have 4: "drop (length xs + 2) (xs @ EOI) = []"
    by (simp add: EOI_def)
  show ?thesis
    unfolding extract_frames_Some [OF 1 2] 3 4 extract_frames_Nil by simp
qed

text \<open>
  Claim C3.  The frames yielded, the buffer left and the way the loop ends are the same
  whether the reads deliver a byte sequence in chunks (a read that returns \<open>b''\<close> is the
  end of the stream, so the chunks are the non-empty reads) or in one piece; in particular
  one byte per read.  When a chunk holds a start marker with no end marker at or after it
  and the next chunk brings the first end marker as its last two bytes, nothing is yielded
  after the first chunk and exactly one frame, from the start marker to that end marker,
  after the second.
\<close>

theorem chunk_boundary_independence:
  "([] \<notin> set chunks \<longrightarrow>
      stream_loop [] (map Inr chunks) = stream_loop [] [Inr (concat chunks)]) \<and>
   stream_loop [] (map (\<lambda>b. Inr [b]) data) = stream_loop [] [Inr data] \<and>
   (first_occurrence c SOI 0 s \<and> (\<nexists>e. first_occurrence (c @ q) EOI s e) \<longrightarrow>
      stream_loop [] [Inr c] = ([], c, None) \<and>
      stream_loop [] [Inr c, Inr (q @ EOI)] = ([drop s (c @ q) @ EOI], [], None))"
proof (intro conjI impI)
  assume "[] \<notin> set chunks"
  then show "stream_loop [] (map Inr chunks) = stream_loop [] [Inr (concat chunks)]"
    by (rule stream_loop_concat)
next
  have "[] \<notin> set (map (\<lambda>b. [b]) data)" by auto
  then have "stream_loop [] (map Inr (map (\<lambda>b. [b]) data)) =
      stream_loop [] [Inr (concat (map (\<lambda>b. [b]) data))]"
    by (rule stream_loop_concat)
  moreover have "concat (map (\<lambda>b. [b]) data) = data"
    by (induction data) simp_all
  ultimately show "stream_loop [] (map (\<lambda>b. Inr [b]) data) = stream_loop [] [Inr data]"
    by (simp add: comp_def)
next
  assume a: "first_occurrence c SOI 0 s \<and> (\<nexists>e. first_occurrence (c @ q) EOI s e)"
  then have s: "bytes_find c SOI 0 = Some s" and e: "bytes_find (c @ q) EOI s = None"
    by (simp_all add: bytes_find_first_occurrence bytes_find_None_iff)
  have ec: "bytes_find c EOI s = None"
  proof (cases "bytes_find c EOI s")
    case (Some i)
    then have "bytes_find (c @ q) EOI s = Some i" by (rule bytes_find_append)
    with e show ?thesis by simp
  qed simp
  from s have ne: "c \<noteq> []"
    using bytes_find_bound [of c SOI 0 s] by (auto simp: SOI_def)
  have x: "extract_frames c = ([], c)"
    using s ec by (rule extract_frames_None2)
  with ne show "stream_loop [] [Inr c] = ([], c, None)"
    by simp
  have "bytes_find (c @ q) SOI 0 = Some s"
    using s by (rule bytes_find_append)
  then have "extract_frames ((c @ q) @ EOI) = ([drop s (c @ q) @ EOI], [])"
    using e by (rule extract_frames_pending)
  moreover have "q @ EOI \<noteq> []" by (simp add: EOI_def)
  ultimately show "stream_loop [] [Inr c, Inr (q @ EOI)] = ([drop s (c @ q) @ EOI], [], None)"
    using ne x by simp
qed

theorem chunk_boundary_independence_witness:
  "[] \<notin> set [[0x01, 0xFF], [0xD8, 0x07, 0xFF], [0xD9, 0xFF, 0xD8, 0xFF :: byte]] \<and>
   stream_loop [] (map Inr [[0x01, 0xFF], [0xD8, 0x07, 0xFF], [0xD9, 0xFF, 0xD8, 0xFF]]) =
     ([[0xFF, 0xD8, 0x07, 0xFF, 0xD9]], [0xFF, 0xD8, 0xFF], None) \<and>
   stream_loop [] [Inr [0x01, 0xFF, 0xD8, 0x07, 0xFF, 0xD9, 0xFF, 0xD8, 0xFF]] =
     ([[0xFF, 0xD8, 0x07, 0xFF, 0xD9]], [0xFF, 0xD8, 0xFF], None) \<and>
   first_occurrence [0x01, 0xFF, 0xD8, 0x07 :: byte] SOI 0 1 \<and>
   stream_loop [] [Inr [0x01, 0xFF, 0xD8, 0x07], Inr ([0x08] @ EOI)] =
     ([[0xFF, 0xD8, 0x07, 0x08, 0xFF, 0xD9]], [], None)"
proof -
  have h: "[] \<notin> set [[0x01, 0xFF], [0xD8, 0x07, 0xFF], [0xD9, 0xFF, 0xD8, 0xFF :: byte]]"
    by simp
  have v: "stream_loop [] [Inr [0x01, 0xFF, 0xD8, 0x07, 0xFF, 0xD9, 0xFF, 0xD8, 0xFF]] =
     ([[0xFF, 0xD8, 0x07, 0xFF, 0xD9]], [0xFF, 0xD8, 0xFF], None)"
    by code_simp
  have f: "first_occurrence [0x01, 0xFF, 0xD8, 0x07 :: byte] SOI 0 1"
    by (simp add: first_occurrence_def py_slice_def SOI_def)
  have "bytes_find ([0x01, 0xFF, 0xD8, 0x07 :: byte] @ [0x08]) EOI 1 = None"
    by (simp add: bytes_find_def EOI_def)
  then have n: "\<nexists>e. first_occurrence ([0x01, 0xFF, 0xD8, 0x07 :: byte] @ [0x08]) EOI 1 e"
    using bytes_find_None_iff by blast
  from chunk_boundary_independence
         [of "[[0x01, 0xFF], [0xD8, 0x07, 0xFF], [0xD9, 0xFF, 0xD8, 0xFF]]"
             "[]" "[0x01, 0xFF, 0xD8, 0x07]" 1 "[0x08]"]
    h v f n
  show ?thesis by (simp del: stream_loop.simps add: EOI_def)
qed

section \<open>The buffer has no bound\<close>

lemma extract_frames_unterminated:
  "unterminated data \<Longrightarrow> extract_frames data = ([], data)"
  by (auto simp: unterminated_def extract_frames_None1 extract_frames_None2 split: option.splits)

lemma stream_loop_unterminated:
  assumes "[] \<notin> set chunks" "unterminated (concat chunks)"
  shows "stream_loop [] (map Inr chunks) = ([], concat chunks, None)"
  using stream_loop_chunks [OF assms(1) extract_frames_Nil] extract_frames_unterminated [OF assms(2)]
  by simp

lemma stream_loop_raises:
  "stream_loop buffer reads = (frames, final, Some e) \<Longrightarrow> Inl e \<in> set reads"
proof (induction buffer reads arbitrary: frames rule: stream_loop.induct)
  case (1 buffer)
  then show ?case by simp
next
  case (2 buffer e reads)
  then show ?case by simp
next
  case (3 buffer chunk reads)
  then show ?case
    by (auto split: if_splits prod.splits)
qed

lemma find_first_absent:
  "last sub \<notin> set xs \<Longrightarrow> sub \<noteq> [] \<Longrightarrow> find_first sub xs = None"
proof (induction xs)
  case Nil
  then show ?case by simp
next
  case (Cons x xs)
  have "take (length sub) (x # xs) \<noteq> sub"
  proof
    assume "take (length sub) (x # xs) = sub"
    then have "set sub \<subseteq> set (x # xs)"
      by (metis set_take_subset)
    moreover from Cons.prems(2) have "last sub \<in> set sub" by simp
    ultimately show False using Cons.prems(1) by blast
  qed
  with Cons show ?case by simp
qed

lemma zeros_unterminated:
  "unterminated (concat ((SOI @ replicate n 0) # replicate k (replicate m 0)))"
proof -
  let ?d = "concat ((SOI @ replicate n 0) # replicate k (replicate m 0))"
  have "set ?d \<subseteq> {0xFF, 0xD8, 0}"
    by (auto simp: SOI_def)
  then have "last EOI \<notin> set ?d"
    by (auto simp: EOI_def)
  then have "find_first EOI ?d = None"
    by (rule find_first_absent) (simp add: EOI_def)
  moreover have "bytes_find ?d SOI 0 = Some 0"
    by (simp add: bytes_find_def SOI_def)
  ultimately show ?thesis
    by (simp add: unterminated_def bytes_find_def)
qed

lemma zeros_buffered:
  assumes "0 < m"
  shows "stream_loop [] (map Inr ((SOI @ replicate n 0) # replicate k (replicate m 0))) =
           ([], concat ((SOI @ replicate n 0) # replicate k (replicate m 0)), None) \<and>
         length (concat ((SOI @ replicate n 0) # replicate k (replicate m 0))) = 2 + n + k * m"
proof -
  have "[] \<notin> set ((SOI @ replicate n 0) # replicate k (replicate m (0 :: byte)))"
    using assms by (auto simp: SOI_def)
  then have "stream_loop [] (map Inr ((SOI @ replicate n 0) # replicate k (replicate m 0))) =
           ([], concat ((SOI @ replicate n 0) # replicate k (replicate m 0)), None)"
    using zeros_unterminated by (rule stream_loop_unterminated)
  moreover have "length (concat ((SOI @ replicate n 0) # replicate k (replicate m (0 :: byte)))) = 2 + n + k * m"
    by (simp add: SOI_def length_concat sum_list_replicate)
  ultimately show ?thesis by simp
qed

text \<open>
  Claim C4, as the code has it.  The buffer has no limit and the loop raises nothing of
  its own: as long as the bytes read hold no complete frame, nothing is yielded and the
  buffer holds every byte read, however many; an exception that leaves the loop is one a
  read has raised.
\<close>

theorem unbounded_buffer:
  "([] \<notin> set chunks \<and> unterminated (concat chunks) \<longrightarrow>
      stream_loop [] (map Inr chunks) = ([], concat chunks, None)) \<and>
   (stream_loop buffer reads = (frames, final, Some e) \<longrightarrow> Inl e \<in> set reads)"
  using stream_loop_unterminated stream_loop_raises by blast

theorem unbounded_buffer_witness:
  "[] \<notin> set [[0x01, 0xFF], [0xD8, 0x07, 0xFF :: byte]] \<and>
   unterminated (concat [[0x01, 0xFF], [0xD8, 0x07, 0xFF]]) \<and>
   stream_loop [] (map Inr [[0x01, 0xFF], [0xD8, 0x07, 0xFF]]) = ([], [0x01, 0xFF, 0xD8, 0x07, 0xFF], None) \<and>
   stream_loop [] [Inr [0x01], Inl (Failure 5), Inr [0x02]] = ([], [0x01], Some (Failure 5)) \<and>
   Inl (Failure 5) \<in> set [Inr [0x01], Inl (Failure 5), Inr [0x02 :: byte]]"
proof -
  have h: "[] \<notin> set [[0x01, 0xFF], [0xD8, 0x07, 0xFF :: byte]]" by simp
  have u: "unterminated (concat [[0x01, 0xFF], [0xD8, 0x07, 0xFF]])"
    by (simp add: unterminated_def bytes_find_def SOI_def EOI_def)
  have r: "stream_loop [] [Inr [0x01], Inl (Failure 5), Inr [0x02]] = ([], [0x01], Some (Failure 5))"
    by code_simp
  from unbounded_buffer
         [of "[[0x01, 0xFF], [0xD8, 0x07, 0xFF]]" "[]" "[Inr [0x01], Inl (Failure 5), Inr [0x02]]"
             "[]" "[0x01]" "Failure 5"]
    h u r
  show ?thesis by (simp del: stream_loop.simps)
qed

theorem overflow_bound_counterexample:
  "stream_loop [] (map Inr ((SOI @ replicate 65534 0) # replicate 128 (replicate 65536 0))) =
     ([], concat ((SOI @ replicate 65534 0) # replicate 128 (replicate 65536 0)), None) \<and>
   length (concat ((SOI @ replicate 65534 0) # replicate 128 (replicate 65536 (0 :: byte)))) =
     8454144 \<and>
   (8 * 1024 * 1024 :: nat) < 8454144"
proof -
  have "(0 :: nat) < 65536" by simp
  from zeros_buffered [OF this, of 65534 128]
  show ?thesis by (simp del: stream_loop.simps replicate.simps concat.simps)
qed

section \<open>The snapshot fallback\<close>

lemma obtained_images_0: "obtained_images snap i 0 = []"
  by (simp add: obtained_images_def)

lemma obtained_images_Suc:
  "obtained_images snap i (Suc n) =
     (case snap i of
        Inl e \<Rightarrow> []
      | Inr r \<Rightarrow>
          (case at_test r of
             None \<Rightarrow> []
           | Some img \<Rightarrow> if img \<noteq> [] then [img] else [])) @ obtained_images snap (Suc i) n"
proof -
  have "[i..<i + Suc n] = i # [Suc i..<Suc i + n]"
    by (simp add: upt_conv_Cons)
  then show ?thesis
    by (simp add: obtained_images_def truthy_def split: sum.splits option.splits)
qed

lemma cache_stable_Suc: "cache_stable snap i (Suc n) \<Longrightarrow> cache_stable snap (Suc i) n"
  by (simp add: cache_stable_def)

lemma cache_stable_head:
  assumes "cache_stable snap i (Suc n)" "snap i = Inr r"
  shows "at_compare r = at_test r" "at_store r = at_test r" "at_yield r = at_test r"
proof -
  have "i \<in> {i..<i + Suc n}" by simp
  with assms(1) have "case snap i of Inl e \<Rightarrow> True
      | Inr r \<Rightarrow> at_compare r = at_test r \<and> at_store r = at_test r \<and> at_yield r = at_test r"
    unfolding cache_stable_def by (rule bspec)
  with assms(2) show "at_compare r = at_test r" "at_store r = at_test r" "at_yield r = at_test r"
    by simp_all
qed

lemma concat_remdups_adj_head:
  "concat (map f (remdups_adj (x # xs))) = f x @ concat (map f (tl (remdups_adj (x # xs))))"
proof -
  have "remdups_adj (x # xs) \<noteq> []" by simp
  moreover have "hd (remdups_adj (x # xs)) = x" by simp
  ultimately obtain ys where "remdups_adj (x # xs) = x # ys"
    by (cases "remdups_adj (x # xs)") auto
  then show ?thesis by simp
qed

lemma snapshot_loop_eq:
  "cache_stable snap i n \<Longrightarrow>
   snapshot_loop snap n i last_frame =
     concat (map (\<lambda>img. mjpeg_part (Some img))
       (case last_frame of
          None \<Rightarrow> remdups_adj (obtained_images snap i n)
        | Some l \<Rightarrow> tl (remdups_adj (l # obtained_images snap i n))))"
proof (induction n arbitrary: i last_frame)
  case 0
  then show ?case by (simp add: obtained_images_0 split: option.splits)
next
  case (Suc n)
  let ?part = "\<lambda>img. mjpeg_part (Some img)"
  from Suc.prems have st: "cache_stable snap (Suc i) n" by (rule cache_stable_Suc)
  have IH1: "snapshot_loop snap n (Suc i) None =
      concat (map ?part (remdups_adj (obtained_images snap (Suc i) n)))"
    by (simp add: Suc.IH [OF st])
  have IH2: "snapshot_loop snap n (Suc i) (Some l) =
      concat (map ?part (tl (remdups_adj (l # obtained_images snap (Suc i) n))))" for l
    by (simp add: Suc.IH [OF st])
  show ?case
  proof (cases "snap i")
    case (Inl e)
    then show ?thesis
      by (cases last_frame) (simp_all add: obtained_images_Suc IH1 IH2)
  next
    case (Inr r)
    note eq = cache_stable_head [OF Suc.prems Inr]
    show ?thesis
    proof (cases "at_test r")
      case None
      with Inr show ?thesis
        by (cases last_frame) (simp_all add: obtained_images_Suc IH1 IH2 truthy_def)
    next
      case (Some img)
      show ?thesis
      proof (cases "img = []")
        case True
        with Inr Some show ?thesis
          by (cases last_frame) (simp_all add: obtained_images_Suc IH1 IH2 truthy_def)
      next
        case False
        have hd: "concat (map ?part (remdups_adj (img # obtained_images snap (Suc i) n))) =
                  ?part img @
                  concat (map ?part (tl (remdups_adj (img # obtained_images snap (Suc i) n))))"
          by (rule concat_remdups_adj_head)
        from Some False have t: "truthy (at_test r)" by (simp add: truthy_def)
        show ?thesis
        proof (cases last_frame)
          case None
          with Inr Some False eq t show ?thesis
            by (simp add: obtained_images_Suc IH2 hd)
        next
          case l: (Some l)
          show ?thesis
          proof (cases "l = img")
            case True
            with Inr Some False l eq t show ?thesis
              by (simp add: obtained_images_Suc IH2)
          next
            case ne: False
            with Inr Some False l eq t show ?thesis
              by (simp add: obtained_images_Suc IH2 hd)
          qed
        qed
      qed
    qed
  qed
qed

lemma snapshot_loop_stable:
  "cache_stable snap 0 600 \<Longrightarrow> snapshot_loop snap 600 0 None = distinct_snapshots snap"
  by (simp add: snapshot_loop_eq distinct_snapshots_def mjpeg_part_def)









lemma obtained_images_add:
  "obtained_images snap i (n + m) = obtained_images snap i n @ obtained_images snap (i + n) m"
proof -
  have "[i..<i + (n + m)] = [i..<i + n] @ [i + n..<i + n + m]"
    by (metis add.assoc le_add1 upt_add_eq_append)
  then show ?thesis
    by (simp add: obtained_images_def map_filter_def)
qed

lemma obtained_images_quiet:
  "(\<And>k. i \<le> k \<Longrightarrow> snap k = Inr (steady None)) \<Longrightarrow> obtained_images snap i n = []"
  by (induction n arbitrary: i) (simp_all add: obtained_images_0 obtained_images_Suc steady_def)

lemma snapshot_loop_quiet:
  "(\<And>k. i \<le> k \<Longrightarrow> snap k = Inr (steady None)) \<Longrightarrow> snapshot_loop snap n i last_frame = []"
  by (induction n arbitrary: i) (simp_all add: steady_def truthy_def)

lemma demo_images: "obtained_images demo_snapshot 0 600 = [[0x01], [0x01], [0x02]]"
proof -
  have "obtained_images demo_snapshot 0 (5 + 595) =
          obtained_images demo_snapshot 0 5 @ obtained_images demo_snapshot (0 + 5) 595"
    by (rule obtained_images_add)
  moreover have "obtained_images demo_snapshot 0 5 = [[0x01], [0x01], [0x02]]"
    by code_simp
  moreover have "obtained_images demo_snapshot 5 595 = []"
    by (rule obtained_images_quiet) (simp add: demo_snapshot_def)
  ultimately show ?thesis by simp
qed

lemma demo_stable: "cache_stable demo_snapshot 0 600"
  by (simp add: cache_stable_def demo_snapshot_def steady_def)

lemma demo_snapshots:
  "snapshot_loop demo_snapshot 600 0 None =
     [Some boundary, Some content_type, Some [0x01], Some crlf,
      Some boundary, Some content_type, Some [0x02], Some crlf]"
  by (simp add: snapshot_loop_stable [OF demo_stable] distinct_snapshots_def demo_images)

lemma racing_snapshots:
  "snapshot_loop racing_snapshot (Suc (Suc n)) 0 None =
     [Some boundary, Some content_type, Some [0x0B], Some crlf,
      Some boundary, Some content_type, Some [0x0B], Some crlf]"
proof -
  have "snapshot_loop racing_snapshot n (Suc (Suc 0)) l = []" for l
    by (rule snapshot_loop_quiet) (simp add: racing_snapshot_def)
  then show ?thesis
    by (simp add: racing_snapshot_def steady_def truthy_def mjpeg_part_def)
qed

lemma failing_frames:
  "stream_via_ffmpeg failing_ffmpeg url = ([still_frame, still_frame], Some (Failure 4))"
proof -
  have "stream_loop [] [Inr (still_frame @ still_frame), Inl (Failure 4)] =
          ([still_frame, still_frame], [], Some (Failure 4))"
    by code_simp
  then show ?thesis
    by (simp add: stream_via_ffmpeg_def failing_ffmpeg_def)
qed



text \<open>
  The claim as stated fails in three ways.  A relay that ends without an exception, as
  when \<open>ffmpeg\<close> starts and exits at once, leads to the \<open>return\<close> of the
  \<open>try\<close> block: the stream is empty although snapshots are to be had, on the
  \<open>rtsps\<close> path and on the proxy path alike.  A relay that fails after it has delivered
  frames leaves these frames in the stream, equal ones in a row included, before the
  snapshots.  And when the cache changes between the assignment to \<open>last_frame\<close> and
  the \<open>yield\<close> of the image, the same image is yielded twice in a row.
\<close>

theorem fallback_counterexample:
  "livestream_strategy silent_ffmpeg (demo_camera (Inr ''rtsps://camera/live'')) = ([], Returned) \<and>
   mjpeg_stream silent_ffmpeg (demo_camera (Inr ''rtsps://camera/live'')) = ([], None) \<and>
   mjpeg_stream silent_ffmpeg proxy_camera = ([], None) \<and>
   obtained_images demo_snapshot 0 600 = [[0x01], [0x01], [0x02]] \<and>
   snd (livestream_strategy failing_ffmpeg (demo_camera (Inr ''rtsps://camera/live''))) =
     Raised (Failure 4) \<and>
   frames_of (fst (mjpeg_stream failing_ffmpeg (demo_camera (Inr ''rtsps://camera/live'')))) =
     [Some still_frame, Some still_frame, Some [0x01], Some [0x02]] \<and>
   livestream_strategy no_ffmpeg racing_camera = ([], Raised (Failure 0)) \<and>
   frames_of (fst (mjpeg_stream no_ffmpeg racing_camera)) = [Some [0x0B], Some [0x0B]]"
proof -
  let ?cam = "demo_camera (Inr ''rtsps://camera/live'')"
  have 1: "livestream_strategy silent_ffmpeg ?cam = ([], Returned)"
    by (simp add: livestream_strategy_def demo_camera_def startswith_def stream_via_ffmpeg_def
        silent_ffmpeg_def)
  then have 2: "mjpeg_stream silent_ffmpeg ?cam = ([], None)"
    by (simp add: mjpeg_stream_def)
  have 3: "mjpeg_stream silent_ffmpeg proxy_camera = ([], None)"
    by (simp add: mjpeg_stream_def livestream_strategy_def proxy_camera_def startswith_def
        stream_via_ffmpeg_def silent_ffmpeg_def)
  have 4: "livestream_strategy failing_ffmpeg ?cam =
      ([Some boundary, Some content_type, Some still_frame, Some crlf,
        Some boundary, Some content_type, Some still_frame, Some crlf], Raised (Failure 4))"
    by (simp add: livestream_strategy_def demo_camera_def startswith_def failing_frames
        mjpeg_part_def)
  then have 5: "snd (livestream_strategy failing_ffmpeg ?cam) = Raised (Failure 4)"
    by simp
  have "snapshot ?cam = demo_snapshot"
    by (simp add: demo_camera_def)
  with 4 have 6: "frames_of (fst (mjpeg_stream failing_ffmpeg ?cam)) =
      [Some still_frame, Some still_frame, Some [0x01], Some [0x02]]"
    by (simp add: mjpeg_stream_def demo_snapshots)
  have 7: "livestream_strategy no_ffmpeg racing_camera = ([], Raised (Failure 0))"
    by (simp add: livestream_strategy_def racing_camera_def)
  have "(600::nat) = Suc (Suc 598)" by simp
  then have "snapshot_loop racing_snapshot 600 0 None =
      [Some boundary, Some content_type, Some [0x0B], Some crlf,
       Some boundary, Some content_type, Some [0x0B], Some crlf]"
    by (simp only: racing_snapshots)
  moreover have "snapshot racing_camera = racing_snapshot"
    by (simp add: racing_camera_def)
  ultimately have 8: "frames_of (fst (mjpeg_stream no_ffmpeg racing_camera)) = [Some [0x0B], Some [0x0B]]"
    using 7 by (simp add: mjpeg_stream_def)
  from 1 2 3 demo_images 5 6 7 8 show ?thesis by blast
qed

section \<open>The subscription probe\<close>

lemma video_detected_nonempty: "video_detected data \<Longrightarrow> data \<noteq> []"
  by (auto simp: video_detected_def contains_def)

lemma classify_Video_iff: "classify json_loads data = Video \<longleftrightarrow> video_detected data"
  using video_detected_nonempty [of data]
  by (auto simp: classify_def split: option.splits)

lemma try_payload_Video_iff:
  "try_payload srv json_loads k payload = Video \<longleftrightarrow>
     opens srv k \<and> (\<exists>data. replies srv k payload = Data data \<and> video_detected data)"
  by (auto simp: try_payload_def classify_Video_iff split: reply.splits)

lemma subscribe_loop_Video:
  "try_payload srv json_loads (connections st) payload = Video \<Longrightarrow>
   subscribe_loop srv json_loads ((name, payload) # rest) st =
     (Subscription_ok name, record_attempt name Video st)"
  by (simp add: Let_def)

lemma subscribe_loop_next:
  "try_payload srv json_loads (connections st) payload = outcome \<Longrightarrow> outcome \<noteq> Video \<Longrightarrow>
   subscribe_loop srv json_loads ((name, payload) # rest) st =
     subscribe_loop srv json_loads rest (record_attempt name outcome st)"
  by (cases outcome) (simp_all add: Let_def)

lemma subscribe_loop_attempts:
  "subscribe_loop srv json_loads cs st = (v, st') \<Longrightarrow>
   \<exists>new. attempts st' = attempts st @ new \<and>
         map fst new = take (length new) (map fst cs) \<and>
         map (fst \<circ> snd) new = [connections st..<connections st + length new] \<and>
         connections st' = connections st + length new \<and>
         length new \<le> length cs"
proof (induction cs arbitrary: st)
  case Nil
  then show ?case by auto
next
  case (Cons c cs)
  obtain name payload where c: "c = (name, payload)" by (cases c)
  define outcome where "outcome = try_payload srv json_loads (connections st) payload"
  define st1 where "st1 = record_attempt name outcome st"
  have st1: "attempts st1 = attempts st @ [(name, connections st, outcome)]"
    "connections st1 = connections st + 1"
    by (simp_all add: st1_def record_attempt_def)
  show ?case
  proof (cases "outcome = Video")
    case True
    with Cons.prems c have "st' = st1"
      using subscribe_loop_Video [of srv json_loads st payload name cs]
      by (simp add: outcome_def st1_def)
    with st1 c show ?thesis
      by (intro exI [of _ "[(name, connections st, outcome)]"]) simp
  next
    case False
    with Cons.prems c have "subscribe_loop srv json_loads cs st1 = (v, st')"
      using subscribe_loop_next [of srv json_loads st payload outcome name cs]
      by (simp add: outcome_def st1_def)
    from Cons.IH [OF this] obtain new where new:
      "attempts st' = attempts st1 @ new" "map fst new = take (length new) (map fst cs)"
      "map (fst \<circ> snd) new = [connections st1..<connections st1 + length new]"
      "connections st' = connections st1 + length new" "length new \<le> length cs"
      by blast
    have "[connections st..<connections st + Suc (length new)] =
            connections st # [Suc (connections st)..<Suc (connections st) + length new]"
      by (subst upt_rec) (simp del: upt_Suc)
    with new st1 c show ?thesis
      by (intro exI [of _ "(name, connections st, outcome) # new"])
         (simp del: upt_Suc add: comp_def)
  qed
qed

lemma test_immis_attempts:
  assumes "test_immis srv json_loads cs = (v, st)"
  shows "map fst (attempts st) = take (length (attempts st)) (map fst cs) \<and>
         map (fst \<circ> snd) (attempts st) = [1..<1 + length (attempts st)] \<and>
         connections st = 1 + length (attempts st) \<and>
         length (attempts st) \<le> length cs"
proof (cases "opens srv 0")
  case False
  with assms show ?thesis by (auto simp: test_immis_def)
next
  case True
  with assms have "subscribe_loop srv json_loads cs \<lparr>connections = 1, closes = 0, attempts = []\<rparr> = (v, st)"
    by (simp add: test_immis_def)
  from subscribe_loop_attempts [OF this] show ?thesis by auto
qed

lemma test_immis_third:
  assumes o: "opens srv 0" "opens srv 1" "opens srv 2" "opens srv 3"
    and r1: "replies srv 1 p1 = Data d1" "d1 \<noteq> []" "\<not> video_detected d1"
    and r2: "replies srv 2 p2 = Data d2" "d2 \<noteq> []" "\<not> video_detected d2"
    and r3: "replies srv 3 p3 = Data d3" "video_detected d3"
  shows "test_immis srv json_loads [(n1, p1), (n2, p2), (n3, p3)] =
           (Subscription_ok n3,
            \<lparr>connections = 4, closes = 2,
             attempts = [(n1, 1, classify json_loads d1), (n2, 2, classify json_loads d2),
                         (n3, 3, Video)]\<rparr>)"
proof -
  let ?s0 = "\<lparr>connections = 1, closes = 0, attempts = []\<rparr> :: 'b probe"
  let ?s1 = "record_attempt n1 (classify json_loads d1) ?s0"
  let ?s2 = "record_attempt n2 (classify json_loads d2) ?s1"
  have k: "closes_writer (classify json_loads d1)" "closes_writer (classify json_loads d2)"
    using r1 r2 by (auto simp: classify_def split: option.splits)
  have c1: "connections ?s1 = 2" and c2: "connections ?s2 = 3"
    by (simp_all add: record_attempt_def)
  have 1: "try_payload srv json_loads (connections ?s0) p1 = classify json_loads d1"
    using o r1 by (simp add: try_payload_def)
  have 2: "try_payload srv json_loads (connections ?s1) p2 = classify json_loads d2"
    using o r2 unfolding c1 by (simp add: try_payload_def)
  have 3: "try_payload srv json_loads (connections ?s2) p3 = Video"
    using o r3 unfolding c2 by (simp add: try_payload_Video_iff)
  have n: "classify json_loads d1 \<noteq> Video" "classify json_loads d2 \<noteq> Video"
    using r1 r2 by (simp_all add: classify_Video_iff)
  have "test_immis srv json_loads [(n1, p1), (n2, p2), (n3, p3)] =
          subscribe_loop srv json_loads [(n1, p1), (n2, p2), (n3, p3)] ?s0"
    using o by (simp only: test_immis_def not_True_eq_False if_False)
  also have "\<dots> = subscribe_loop srv json_loads [(n2, p2), (n3, p3)] ?s1"
    using 1 n(1) by (rule subscribe_loop_next)
  also have "\<dots> = subscribe_loop srv json_loads [(n3, p3)] ?s2"
    using 2 n(2) by (rule subscribe_loop_next)
  also have "\<dots> = (Subscription_ok n3, record_attempt n3 Video ?s2)"
    using 3 by (rule subscribe_loop_Video)
  also have "record_attempt n3 Video ?s2 =
      \<lparr>connections = 4, closes = 2,
       attempts = [(n1, 1, classify json_loads d1), (n2, 2, classify json_loads d2),
                   (n3, 3, Video)]\<rparr>"
    using k by (simp add: record_attempt_def)
  finally show ?thesis .
qed

lemma demo_video: "video_detected [0x00, 0x00, 0x00, 0x01, 0x67]"
  by (simp add: video_detected_def contains_def)

lemma demo_brace: "\<not> video_detected [0x7B, 0x7D]"
  by (simp add: video_detected_def contains_def)

text \<open>
  Claim C5, as the code has it.  The candidates are tried in the order of the list, each
  on a connection opened for it (connection \<open>i\<close> for the \<open>i\<close>-th candidate tried),
  after the one connection the TLS test of phase 5.2 opens; so a run makes one
  \<open>open_connection\<close> call more than it tries candidates, at most one more than
  there are candidates.  When the first two candidates get a non-empty answer without a
  start code and the third an answer with one, the run succeeds with the third candidate
  after three attempts, on the fourth connection opened.
\<close>

theorem negotiation_attempts:
  "(test_immis srv json_loads candidates = (v, st) \<longrightarrow>
      map fst (attempts st) = take (length (attempts st)) (map fst candidates) \<and>
      map (fst \<circ> snd) (attempts st) = [1..<1 + length (attempts st)] \<and>
      connections st = 1 + length (attempts st) \<and>
      connections st \<le> 1 + length candidates) \<and>
   (opens srv 0 \<and> opens srv 1 \<and> opens srv 2 \<and> opens srv 3 \<and>
    replies srv 1 p1 = Data d1 \<and> d1 \<noteq> [] \<and> \<not> video_detected d1 \<and>
    replies srv 2 p2 = Data d2 \<and> d2 \<noteq> [] \<and> \<not> video_detected d2 \<and>
    replies srv 3 p3 = Data d3 \<and> video_detected d3 \<longrightarrow>
      test_immis srv json_loads [(n1, p1), (n2, p2), (n3, p3)] =
        (Subscription_ok n3,
         \<lparr>connections = 4, closes = 2,
          attempts = [(n1, 1, classify json_loads d1), (n2, 2, classify json_loads d2),
                      (n3, 3, Video)]\<rparr>))"
proof (intro conjI impI)
  assume a: "test_immis srv json_loads candidates = (v, st)"
  note t = test_immis_attempts [OF a]
  from t show "map fst (attempts st) = take (length (attempts st)) (map fst candidates)"
    by blast
  from t show "map (fst \<circ> snd) (attempts st) = [1..<1 + length (attempts st)]"
    by blast
  from t show "connections st = 1 + length (attempts st)"
    by blast
  from t show "connections st \<le> 1 + length candidates"
    by simp
next
  assume "opens srv 0 \<and> opens srv 1 \<and> opens srv 2 \<and> opens srv 3 \<and>
    replies srv 1 p1 = Data d1 \<and> d1 \<noteq> [] \<and> \<not> video_detected d1 \<and>
    replies srv 2 p2 = Data d2 \<and> d2 \<noteq> [] \<and> \<not> video_detected d2 \<and>
    replies srv 3 p3 = Data d3 \<and> video_detected d3"
  then show "test_immis srv json_loads [(n1, p1), (n2, p2), (n3, p3)] =
        (Subscription_ok n3,
         \<lparr>connections = 4, closes = 2,
          attempts = [(n1, 1, classify json_loads d1), (n2, 2, classify json_loads d2),
                      (n3, 3, Video)]\<rparr>)"
    by (intro test_immis_third [where ?d3.0 = d3]) simp_all
qed

theorem negotiation_attempts_witness:
  "opens demo_server 0 \<and> opens demo_server 1 \<and> opens demo_server 2 \<and> opens demo_server 3 \<and>
   replies demo_server 1 1 = Data [0x7B, 0x7D] \<and> \<not> video_detected [0x7B, 0x7D] \<and>
   replies demo_server 2 2 = Data [0x7B, 0x7D] \<and>
   replies demo_server 3 3 = Data [0x00, 0x00, 0x00, 0x01, 0x67] \<and>
   video_detected [0x00, 0x00, 0x00, 0x01, 0x67] \<and>
   test_immis demo_server demo_json (payloads 1 2 3) =
     (Subscription_ok ''Full'',
      \<lparr>connections = 4, closes = 2,
       attempts = [(''Simple'', 1, Json ()), (''With Auth'', 2, Json ()), (''Full'', 3, Video)]\<rparr>) \<and>
   connections \<lparr>connections = 4, closes = 2,
       attempts = [(''Simple'', 1, Json ()), (''With Auth'', 2, Json ()), (''Full'', 3, Video)]\<rparr>
     \<le> 1 + length (payloads (1 :: nat) 2 3)"
proof -
  let ?st = "\<lparr>connections = 4, closes = 2,
       attempts = [(''Simple'', 1, Json ()), (''With Auth'', 2, Json ()), (''Full'', 3, Video)]\<rparr>"
  have o: "opens demo_server k" for k
    by (simp add: demo_server_def)
  have r: "replies demo_server 1 1 = Data [0x7B, 0x7D]" "replies demo_server 2 2 = Data [0x7B, 0x7D]"
    "replies demo_server 3 3 = Data [0x00, 0x00, 0x00, 0x01, 0x67]"
    by (simp_all add: demo_server_def)
  have c: "classify demo_json [0x7B, 0x7D] = Json ()"
    using demo_brace by (simp add: classify_def demo_json_def)
  note t = negotiation_attempts
         [of demo_server demo_json "payloads 1 2 3" "Subscription_ok ''Full''" ?st
             1 "[0x7B, 0x7D]" 2 "[0x7B, 0x7D]" 3 "[0x00, 0x00, 0x00, 0x01, 0x67]"
             "''Simple''" "''With Auth''" "''Full''"]
  from t o r demo_video demo_brace c
  have e: "test_immis demo_server demo_json (payloads 1 2 3) = (Subscription_ok ''Full'', ?st)"
    by (simp add: payloads_def)
  with t have "connections ?st \<le> 1 + length (payloads (1 :: nat) 2 3)"
    by blast
  with e o r demo_video demo_brace show ?thesis
    by blast
qed

theorem connection_count_counterexample:
  "fst (test_immis demo_server demo_json (payloads 1 2 3)) = Subscription_ok ''Full'' \<and>
   connections (snd (test_immis demo_server demo_json (payloads 1 2 3))) = 4 \<and>
   \<not> connections (snd (test_immis demo_server demo_json (payloads 1 2 3)))
       \<le> length (payloads (1 :: nat) 2 3)"
proof -
  have "test_immis demo_server demo_json (payloads 1 2 3) =
     (Subscription_ok ''Full'',
      \<lparr>connections = 4, closes = 2,
       attempts = [(''Simple'', 1, classify demo_json [0x7B, 0x7D]),
                   (''With Auth'', 2, classify demo_json [0x7B, 0x7D]), (''Full'', 3, Video)]\<rparr>)"
    unfolding payloads_def
    by (rule test_immis_third [where ?d3.0 = "[0x00, 0x00, 0x00, 0x01, 0x67]"])
       (simp_all add: demo_server_def demo_video demo_brace)
  then show ?thesis by (simp add: payloads_def)
qed

text \<open>
  Claim C6, as the code has it.  A non-empty answer with a start code in its first 20
  bytes is video; otherwise an answer that parses as JSON is printed as such; otherwise
  it is left alone.  Only video counts as success, whatever the length of the answer: an
  attempt succeeds exactly if the connection opens and the answer has a start code in its
  first 20 bytes.
\<close>

theorem response_classification:
  "(data1 \<noteq> [] \<and> video_detected data1 \<longrightarrow> classify json_loads data1 = Video) \<and>
   (data2 \<noteq> [] \<and> \<not> video_detected data2 \<and> json_loads data2 = Some r \<longrightarrow>
      classify json_loads data2 = Json r) \<and>
   (data3 \<noteq> [] \<and> \<not> video_detected data3 \<and> json_loads data3 = None \<longrightarrow>
      classify json_loads data3 = Unparsed) \<and>
   (classify json_loads data = Video \<longleftrightarrow> video_detected data) \<and>
   (try_payload srv json_loads k payload = Video \<longleftrightarrow>
      opens srv k \<and> (\<exists>d. replies srv k payload = Data d \<and> video_detected d))"
  using classify_Video_iff [of json_loads data] try_payload_Video_iff [of srv json_loads k payload]
  by (simp add: classify_def)

theorem response_classification_witness:
  "video_detected [0x00, 0x00, 0x00, 0x01, 0x67] \<and>
   classify demo_json [0x00, 0x00, 0x00, 0x01, 0x67] = Video \<and>
   \<not> video_detected [0x7B, 0x7D] \<and> demo_json [0x7B, 0x7D] = Some () \<and>
   classify demo_json [0x7B, 0x7D] = Json () \<and>
   \<not> video_detected [0xFF] \<and> demo_json [0xFF] = None \<and>
   classify demo_json [0xFF] = Unparsed \<and>
   try_payload demo_server demo_json 3 3 = Video \<and>
   try_payload demo_server demo_json 1 1 \<noteq> Video"
proof -
  have n: "\<not> video_detected [0xFF]"
    by (simp add: video_detected_def contains_def)
  have j: "demo_json [0x7B, 0x7D] = Some ()" "demo_json [0xFF] = None"
    by (simp_all add: demo_json_def)
  have r: "replies demo_server 3 3 = Data [0x00, 0x00, 0x00, 0x01, 0x67]"
    "replies demo_server 1 1 = Data [0x7B, 0x7D]" "opens demo_server 3" "opens demo_server 1"
    by (simp_all add: demo_server_def)
  from response_classification
         [of "[0x00, 0x00, 0x00, 0x01, 0x67]" demo_json "[0x7B, 0x7D]" "()" "[0xFF]"
             "[0xFF]" demo_server 3 3]
       response_classification
         [of "[0x00, 0x00, 0x00, 0x01, 0x67]" demo_json "[0x7B, 0x7D]" "()" "[0xFF]"
             "[0xFF]" demo_server 1 1]
       demo_video demo_brace n j r
  show ?thesis by simp
qed

theorem length_threshold_counterexample:
  "length (replicate 4096 (0xFF :: byte)) = 4096 \<and>
   classify demo_json (replicate 4096 0xFF) = Unparsed \<and>
   classify demo_json [0xFF] = Unparsed"
proof -
  have "last [0x00, 0x00, 0x00, 0x01 :: byte] \<notin> set (take 20 (replicate 4096 0xFF))"
    "last [0x00, 0x00, 0x01 :: byte] \<notin> set (take 20 (replicate 4096 0xFF))"
    by (auto dest: in_set_takeD)
  then have "\<not> video_detected (replicate 4096 0xFF)"
    by (simp add: video_detected_def contains_def find_first_absent del: take_replicate)
  moreover have "length (replicate 4096 (0xFF :: byte)) \<noteq> length [0x7B, 0x7D :: byte]"
    by simp
  then have "replicate 4096 (0xFF :: byte) \<noteq> [0x7B, 0x7D]"
    by metis
  then have "demo_json (replicate 4096 0xFF) = None"
    by (simp add: demo_json_def)
  moreover have "replicate 4096 (0xFF :: byte) \<noteq> []"
    by (metis length_replicate list.size(3) zero_neq_numeral)
  moreover have "classify demo_json [0xFF] = Unparsed"
    by (simp add: classify_def demo_json_def video_detected_def contains_def)
  ultimately show ?thesis
    by (simp add: classify_def)
qed

section \<open>Parsing endpoint references\<close>

lemma find_first_char:
  "c \<notin> set a \<Longrightarrow> find_first [c] (a @ c # b) = Some (length a)"
  by (induction a) auto

lemma find_first_char_None: "c \<notin> set s \<Longrightarrow> find_first [c] s = None"
  by (rule find_first_absent) simp_all

lemma contains_char: "contains [c] s \<longleftrightarrow> c \<in> set s"
proof
  assume a: "contains [c] s"
  show "c \<in> set s"
  proof (rule ccontr)
    assume "c \<notin> set s"
    then have "find_first [c] s = None" by (rule find_first_char_None)
    with a show False by (simp add: contains_def)
  qed
next
  assume "c \<in> set s"
  then obtain a b where "s = a @ c # b" "c \<notin> set a"
    by (meson split_list_first)
  then show "contains [c] s"
    by (simp add: contains_def find_first_char)
qed

lemma py_split1_char: "c \<notin> set a \<Longrightarrow> py_split1 (a @ c # b) [c] = [a, b]"
  by (simp add: py_split1_def find_first_char)

lemma py_split_char_none: "c \<notin> set s \<Longrightarrow> py_split s [c] = [s]"
  by (subst py_split.simps) (simp add: find_first_char_None)

lemma py_split_char: "c \<notin> set a \<Longrightarrow> py_split (a @ c # b) [c] = a # py_split b [c]"
  by (subst py_split.simps) (simp add: find_first_char)

lemma py_split_not_Nil: "sep \<noteq> [] \<Longrightarrow> py_split s sep \<noteq> []"
  by (subst py_split.simps) (simp split: option.splits)

lemma py_split_length2: "c \<in> set s \<Longrightarrow> 2 \<le> length (py_split s [c])"
proof -
  assume "c \<in> set s"
  then obtain a b where s: "s = a @ c # b" "c \<notin> set a"
    by (meson split_list_first)
  have "py_split b [c] \<noteq> []" by (rule py_split_not_Nil) simp
  then have "1 \<le> length (py_split b [c])"
    by (cases "py_split b [c]") simp_all
  with s show ?thesis by (simp add: py_split_char)
qed

lemma is_digit_plain:
  assumes "is_digit c"
  shows "\<not> int_space c" "c \<noteq> CHR ''+''" "c \<noteq> CHR ''-''" "c \<noteq> CHR ''_''"
  using assms by (auto simp: is_digit_def int_space_def)

lemma int_strip_digits:
  assumes "\<forall>c\<in>set p. is_digit c"
  shows "int_strip p = p"
proof -
  have "dropWhile int_space p = p"
    using assms by (intro dropWhile_id) (simp add: is_digit_plain)
  moreover have "dropWhile int_space (rev p) = rev p"
    using assms by (intro dropWhile_id) (simp add: is_digit_plain)
  ultimately show ?thesis by (simp add: int_strip_def)
qed

lemma int_digits_all:
  "\<forall>c\<in>set cs. is_digit c \<Longrightarrow>
   int_digits cs (n, v) =
     Some (n + length cs, foldl (\<lambda>v c. v * 10 + digit_val c) v cs, [])"
  by (induction cs arbitrary: n v) simp_all

lemma py_int_digits:
  assumes "p \<noteq> []" "\<forall>c\<in>set p. is_digit c" "length p \<le> 4300"
  shows "py_int p = Inr (decimal p)"
proof -
  from assms(1) obtain c cs where p: "p = c # cs" by (cases p) auto
  with assms have c: "is_digit c" and cs: "\<forall>c\<in>set cs. is_digit c" and len: "Suc (length cs) \<le> 4300"
    by simp_all
  have "int_unsigned (c # cs) = Inr (decimal (c # cs))"
    using c len by (simp add: int_unsigned_def int_digits_all [OF cs] decimal_def)
  with c p assms(2) show ?thesis
    by (simp add: py_int_def int_strip_digits is_digit_plain)
qed

lemma py_int_empty: "py_int [] = Inl (ValueError Invalid_literal)"
  by (simp add: py_int_def int_strip_def)

lemma set_dropWhile_keeps: "x \<in> set xs \<Longrightarrow> \<not> P x \<Longrightarrow> x \<in> set (dropWhile P xs)"
  by (induction xs) auto

lemma int_strip_keeps: "c \<in> set s \<Longrightarrow> \<not> int_space c \<Longrightarrow> c \<in> set (int_strip s)"
  by (simp add: int_strip_def set_dropWhile_keeps)

lemma int_digits_run:
  "int_digits cs (n, v) = Some (n', v', rest) \<Longrightarrow>
   n' \<le> n + length cs \<and> (rest = [] \<longrightarrow> (\<forall>c\<in>set cs. is_digit c \<or> c = CHR ''_''))"
proof (induction cs "(n, v)" arbitrary: n v rule: int_digits.induct)
  case (1 n v)
  then show ?case by simp
next
  case (2 d ds n v)
  show ?case
  proof (cases "is_digit d")
    case True
    with "2.prems" have "int_digits ds (Suc n, v * 10 + digit_val d) = Some (n', v', rest)"
      by simp
    from "2.hyps"(1) [OF True this] True show ?thesis by simp
  next
    case nd: False
    show ?thesis
    proof (cases "d = CHR ''_''")
      case False
      with nd "2.prems" have "n' = n" "rest = d # ds" by simp_all
      then show ?thesis by simp
    next
      case us: True
      show ?thesis
      proof (cases ds)
        case Nil
        with nd us "2.prems" show ?thesis by simp
      next
        case (Cons x xs)
        show ?thesis
        proof (cases "is_digit x")
          case False
          with nd us Cons "2.prems" show ?thesis by simp
        next
          case True
          with nd us Cons "2.prems"
          have "int_digits xs (Suc n, v * 10 + digit_val x) = Some (n', v', rest)"
            by simp
          from "2.hyps"(2) [OF nd us Cons True this] us Cons True show ?thesis by simp
        qed
      qed
    qed
  qed
qed

lemma int_unsigned_Cons:
  "int_unsigned (d # ds) =
     (if is_digit d then
        (case int_digits ds (1, digit_val d) of
           None \<Rightarrow> Inl (ValueError Invalid_literal)
         | Some (n, v, rest) \<Rightarrow>
             if 4300 < n then Inl (ValueError Exceeds_digit_limit)
             else if rest = [] then Inr v
             else Inl (ValueError Invalid_literal))
      else Inl (ValueError Invalid_literal))"
  by (simp add: int_unsigned_def)

lemma int_unsigned_Nil: "int_unsigned [] = Inl (ValueError Invalid_literal)"
  by (simp add: int_unsigned_def)

lemma int_unsigned_Inr:
  assumes "int_unsigned u = Inr v"
  shows "\<forall>c\<in>set u. is_digit c \<or> c = CHR ''_''"
proof (cases u)
  case Nil
  then show ?thesis by simp
next
  case (Cons d ds)
  show ?thesis
  proof (cases "is_digit d")
    case False
    with assms Cons show ?thesis by (simp add: int_unsigned_Cons)
  next
    case d: True
    show ?thesis
    proof (cases "int_digits ds (1, digit_val d)")
      case None
      with assms Cons d show ?thesis by (simp add: int_unsigned_Cons)
    next
      case (Some r)
      obtain n w rest where r: "r = (n, w, rest)" by (cases r)
      have "rest = []"
      proof (rule ccontr)
        assume "rest \<noteq> []"
        with assms Cons d Some r show False
          by (cases "4300 < n") (simp_all add: int_unsigned_Cons)
      qed
      with Some r have "int_digits ds (1, digit_val d) = Some (n, w, [])" by simp
      from int_digits_run [OF this] d Cons show ?thesis by simp
    qed
  qed
qed

lemma int_unsigned_short:
  assumes "length u \<le> 4300"
  shows "int_unsigned u \<noteq> Inl (ValueError Exceeds_digit_limit)"
proof (cases u)
  case Nil
  then show ?thesis by (simp add: int_unsigned_Nil)
next
  case (Cons d ds)
  show ?thesis
  proof (cases "is_digit d")
    case False
    with Cons show ?thesis by (simp add: int_unsigned_Cons)
  next
    case d: True
    show ?thesis
    proof (cases "int_digits ds (1, digit_val d)")
      case None
      with Cons d show ?thesis by (simp add: int_unsigned_Cons)
    next
      case (Some r)
      obtain n v rest where r: "r = (n, v, rest)" by (cases r)
      with Some have "n \<le> 1 + length ds"
        using int_digits_run [of ds 1 "digit_val d" n v rest] by simp
      with assms Cons have "\<not> 4300 < n" by simp
      with Cons Some r d show ?thesis
        by (cases "rest = []") (simp_all add: int_unsigned_Cons)
    qed
  qed
qed

lemma int_unsigned_error:
  assumes "int_unsigned u = Inl e"
  shows "e = ValueError Invalid_literal \<or> e = ValueError Exceeds_digit_limit"
proof (cases u)
  case Nil
  with assms show ?thesis by (simp add: int_unsigned_Nil)
next
  case (Cons d ds)
  show ?thesis
  proof (cases "is_digit d")
    case False
    with assms Cons show ?thesis by (simp add: int_unsigned_Cons)
  next
    case d: True
    show ?thesis
    proof (cases "int_digits ds (1, digit_val d)")
      case None
      with assms Cons d show ?thesis by (simp add: int_unsigned_Cons)
    next
      case (Some r)
      obtain n v rest where "r = (n, v, rest)" by (cases r)
      with assms Cons Some d show ?thesis
        by (cases "4300 < n"; cases "rest = []") (simp_all add: int_unsigned_Cons)
    qed
  qed
qed

lemma and_then_Inl:
  "and_then m (\<lambda>v. Inr (f v)) = Inl e \<longleftrightarrow> m = Inl e"
  by (cases m) (simp_all add: and_then_def)

lemma and_then_Inr:
  "and_then m (\<lambda>v. Inr (f v)) = Inr w \<Longrightarrow> \<exists>v. m = Inr v"
  by (cases m) (simp_all add: and_then_def)

lemma py_int_Nil: "int_strip s = [] \<Longrightarrow> py_int s = Inl (ValueError Invalid_literal)"
  by (simp add: py_int_def)

lemma py_int_plus: "int_strip s = CHR ''+'' # ds \<Longrightarrow> py_int s = int_unsigned ds"
  by (simp add: py_int_def)

lemma py_int_minus:
  "int_strip s = CHR ''-'' # ds \<Longrightarrow> py_int s = and_then (int_unsigned ds) (\<lambda>v. Inr (- v))"
  by (simp add: py_int_def)

lemma py_int_unsigned:
  "int_strip s = d # ds \<Longrightarrow> d \<noteq> CHR ''+'' \<Longrightarrow> d \<noteq> CHR ''-'' \<Longrightarrow>
   py_int s = int_unsigned (d # ds)"
  by (simp add: py_int_def)

lemma length_int_strip: "length (int_strip s) \<le> length s"
proof -
  have "length (dropWhile int_space (rev (dropWhile int_space s))) \<le>
          length (rev (dropWhile int_space s))"
    by (rule length_dropWhile_le)
  also have "\<dots> \<le> length s"
    by (simp add: length_dropWhile_le)
  finally show ?thesis by (simp add: int_strip_def)
qed

lemma py_int_error:
  assumes "py_int s = Inl e"
  shows "e = ValueError Invalid_literal \<or> e = ValueError Exceeds_digit_limit"
proof (cases "int_strip s")
  case Nil
  with assms show ?thesis by (simp add: py_int_Nil)
next
  case (Cons d ds)
  consider "d = CHR ''+''" | "d = CHR ''-''" | "d \<noteq> CHR ''+''" "d \<noteq> CHR ''-''"
    by blast
  then show ?thesis
  proof cases
    case 1
    with assms Cons have "int_unsigned ds = Inl e" by (simp add: py_int_plus)
    then show ?thesis by (rule int_unsigned_error)
  next
    case 2
    with assms Cons have "int_unsigned ds = Inl e"
      by (simp add: py_int_minus and_then_Inl)
    then show ?thesis by (rule int_unsigned_error)
  next
    case 3
    with assms Cons have "int_unsigned (d # ds) = Inl e" by (simp add: py_int_unsigned)
    then show ?thesis by (rule int_unsigned_error)
  qed
qed

lemma py_int_short:
  assumes "length s \<le> 4300"
  shows "py_int s \<noteq> Inl (ValueError Exceeds_digit_limit)"
proof (cases "int_strip s")
  case Nil
  then show ?thesis by (simp add: py_int_Nil)
next
  case (Cons d ds)
  with assms have len: "length (d # ds) \<le> 4300" "length ds \<le> 4300"
    using length_int_strip [of s] by simp_all
  consider "d = CHR ''+''" | "d = CHR ''-''" | "d \<noteq> CHR ''+''" "d \<noteq> CHR ''-''"
    by blast
  then show ?thesis
  proof cases
    case 1
    with Cons int_unsigned_short [OF len(2)] show ?thesis by (simp add: py_int_plus)
  next
    case 2
    with Cons int_unsigned_short [OF len(2)] show ?thesis
      by (simp add: py_int_minus and_then_Inl)
  next
    case 3
    with Cons int_unsigned_short [OF len(1)] show ?thesis by (simp add: py_int_unsigned)
  qed
qed

lemma py_int_Inr:
  assumes "py_int s = Inr v" "c \<in> set s"
  shows "is_digit c \<or> c = CHR ''_'' \<or> c = CHR ''+'' \<or> c = CHR ''-'' \<or> int_space c"
proof (rule ccontr)
  assume "\<not> (is_digit c \<or> c = CHR ''_'' \<or> c = CHR ''+'' \<or> c = CHR ''-'' \<or> int_space c)"
  then have n: "\<not> is_digit c" "c \<noteq> CHR ''_''" "c \<noteq> CHR ''+''" "c \<noteq> CHR ''-''"
    "\<not> int_space c"
    by blast+
  from assms(2) n(5) have c: "c \<in> set (int_strip s)"
    by (rule int_strip_keeps)
  then obtain d ds where ds: "int_strip s = d # ds"
    by (cases "int_strip s") simp_all
  have bad: "\<not> (\<forall>x\<in>set u. is_digit x \<or> x = CHR ''_'')" if "c \<in> set u" for u
    using that n(1,2) by blast
  consider "d = CHR ''+''" | "d = CHR ''-''" | "d \<noteq> CHR ''+''" "d \<noteq> CHR ''-''"
    by blast
  then show False
  proof cases
    case 1
    from c ds have "c = d \<or> c \<in> set ds" by simp
    with 1 n(3) have cu: "c \<in> set ds" by blast
    from 1 ds have "py_int s = int_unsigned ds" by (simp only: py_int_plus)
    with assms(1) have "int_unsigned ds = Inr v" by simp
    from int_unsigned_Inr [OF this] bad [OF cu] show ?thesis by blast
  next
    case 2
    from c ds have "c = d \<or> c \<in> set ds" by simp
    with 2 n(4) have cu: "c \<in> set ds" by blast
    from 2 ds have "py_int s = and_then (int_unsigned ds) (\<lambda>v. Inr (- v))"
      by (simp only: py_int_minus)
    with assms(1) have "and_then (int_unsigned ds) (\<lambda>v. Inr (- v)) = Inr v" by simp
    then have "\<exists>w. int_unsigned ds = Inr w"
      by (rule and_then_Inr)
    then obtain w where "int_unsigned ds = Inr w" ..
    from int_unsigned_Inr [OF this] bad [OF cu] show ?thesis by blast
  next
    case 3
    from c ds have cu: "c \<in> set (d # ds)" by simp
    from ds 3 have "py_int s = int_unsigned (d # ds)" by (rule py_int_unsigned)
    with assms(1) have "int_unsigned (d # ds) = Inr v" by simp
    from int_unsigned_Inr [OF this] bad [OF cu] show ?thesis by blast
  qed
qed

lemma py_int_bad:
  assumes "c \<in> set s" "\<not> is_digit c" "\<not> int_space c" "c \<noteq> CHR ''_''" "c \<noteq> CHR ''+''"
    "c \<noteq> CHR ''-''"
  shows "py_int s = Inl (ValueError Invalid_literal) \<or>
         py_int s = Inl (ValueError Exceeds_digit_limit)"
proof (cases "py_int s")
  case (Inl e)
  then show ?thesis using py_int_error by blast
next
  case (Inr v)
  from py_int_Inr [OF this assms(1)] assms show ?thesis by blast
qed

lemma py_int_bad_short:
  assumes "c \<in> set s" "\<not> is_digit c" "\<not> int_space c" "c \<noteq> CHR ''_''" "c \<noteq> CHR ''+''"
    "c \<noteq> CHR ''-''" "length s \<le> 4300"
  shows "py_int s = Inl (ValueError Invalid_literal)"
  using py_int_bad [OF assms(1-6)] py_int_short [OF assms(7)] by blast

lemma startswith_immis_iff: "startswith u ''immis://'' \<longleftrightarrow> take 8 u = ''immis://''"
proof -
  have "length ''immis://'' = 8" by simp
  then show ?thesis unfolding startswith_def by (simp only:)
qed

lemma startswith_immis: "startswith (''immis://'' @ u) ''immis://''"
  by (simp add: startswith_def)

lemma no_scheme_bare: "CHR '':'' \<notin> set seg \<Longrightarrow> \<not> startswith seg ''immis://''"
proof
  assume a: "CHR '':'' \<notin> set seg" and "startswith seg ''immis://''"
  then have "take 8 seg = ''immis://''" by (simp only: startswith_immis_iff)
  moreover have "CHR '':'' \<in> set ''immis://''" by simp
  ultimately have "CHR '':'' \<in> set (take 8 seg)" by simp
  with a show False by (auto dest: in_set_takeD)
qed

lemma no_scheme_path:
  assumes "CHR '':'' \<notin> set seg" "CHR ''/'' \<notin> set seg"
  shows "\<not> startswith (seg @ CHR ''/'' # rest) ''immis://''"
proof
  let ?P = "\<lambda>c. c \<noteq> CHR '':'' \<and> c \<noteq> CHR ''/''"
  let ?u = "seg @ CHR ''/'' # rest"
  assume "startswith ?u ''immis://''"
  then have "take 8 ?u = ''immis://''" by (simp only: startswith_immis_iff)
  then have "?u = ''immis://'' @ drop 8 ?u"
    by (metis append_take_drop_id)
  then have "dropWhile ?P ?u = dropWhile ?P (''immis://'' @ drop 8 ?u)"
    by simp
  also have "\<dots> = ''://'' @ drop 8 ?u"
    by simp
  finally have "hd (dropWhile ?P ?u) = CHR '':''" by simp
  moreover have "dropWhile ?P ?u = CHR ''/'' # rest"
    using assms by (subst dropWhile_append2) auto
  ultimately show False by simp
qed

lemma shpp_path:
  "CHR ''/'' \<notin> set hp \<Longrightarrow>
   split_host_port_path (hp @ CHR ''/'' # rest) = split_port hp (CHR ''/'' # rest)"
  by (simp add: split_host_port_path_def contains_char py_split1_char and_then_def split_port_def)

lemma shpp_bare:
  "CHR ''/'' \<notin> set hp \<Longrightarrow> split_host_port_path hp = split_port hp ''/''"
  by (simp add: split_host_port_path_def contains_char and_then_def split_port_def)

lemma split_port_plain: "CHR '':'' \<notin> set hp \<Longrightarrow> split_port hp path = Inr (hp, 443, path)"
  by (simp add: split_port_def)

lemma split_port_one:
  "CHR '':'' \<notin> set h \<Longrightarrow> CHR '':'' \<notin> set p \<Longrightarrow>
   split_port (h @ CHR '':'' # p) path = and_then (py_int p) (\<lambda>n. Inr (h, n, path))"
  by (simp add: split_port_def py_split_char py_split_char_none and_then_def)

lemma split_port_many:
  assumes "CHR '':'' \<notin> set h" "CHR '':'' \<in> set p"
  shows "split_port (h @ CHR '':'' # p) path = Inl (ValueError Too_many_values)"
proof -
  from py_split_length2 [OF assms(2)] obtain a b r where "py_split p '':'' = a # b # r"
    by (cases "py_split p '':''"; cases "tl (py_split p '':'')") auto
  with assms(1) show ?thesis
    by (simp add: split_port_def py_split_char and_then_def)
qed

lemma split_port_error:
  assumes "split_port hp path = Inl e"
  shows "e = ValueError Invalid_literal \<or> e = ValueError Exceeds_digit_limit \<or>
         e = ValueError Too_many_values"
proof (cases "CHR '':'' \<in> set hp")
  case False
  with assms show ?thesis by (simp add: split_port_def)
next
  case True
  then obtain h p where hp: "hp = h @ CHR '':'' # p" "CHR '':'' \<notin> set h"
    by (meson split_list_first)
  show ?thesis
  proof (cases "CHR '':'' \<in> set p")
    case True
    with assms hp show ?thesis by (simp add: split_port_many)
  next
    case False
    with assms hp have "and_then (py_int p) (\<lambda>n. Inr (h, n, path)) = Inl e"
      by (simp add: split_port_one)
    then have "py_int p = Inl e"
      by (cases "py_int p") (simp_all add: and_then_def)
    then show ?thesis using py_int_error by blast
  qed
qed

lemma shpp_error:
  assumes "split_host_port_path u = Inl e"
  shows "e = ValueError Invalid_literal \<or> e = ValueError Exceeds_digit_limit \<or>
         e = ValueError Too_many_values"
proof (cases "CHR ''/'' \<in> set u")
  case False
  with assms show ?thesis using split_port_error by (simp add: shpp_bare)
next
  case True
  then obtain hp rest where "u = hp @ CHR ''/'' # rest" "CHR ''/'' \<notin> set hp"
    by (meson split_list_first)
  with assms show ?thesis using split_port_error by (simp add: shpp_path)
qed

lemma parse_url_immis: "parse_url (''immis://'' @ u) = split_host_port_path u"
  using startswith_immis [of u] by (simp add: parse_url_def)

lemma parse_url_other: "\<not> startswith url ''immis://'' \<Longrightarrow> parse_url url = split_host_port_path url"
  by (simp add: parse_url_def)

lemma parse_url_error:
  "parse_url url = Inl e \<Longrightarrow>
   e = ValueError Invalid_literal \<or> e = ValueError Exceeds_digit_limit \<or>
   e = ValueError Too_many_values"
  unfolding parse_url_def by (rule shpp_error)

lemma test_immis_parse_immis: "test_immis_parse (''immis://'' @ u) = split_host_port_path u"
  by (simp add: test_immis_parse_def)

lemma find_first_occurs: "find_first sub (pre @ sub @ s) \<noteq> None"
proof (induction pre)
  case Nil
  have t: "take (length sub) (sub @ s) = sub" by simp
  show ?case
  proof (cases "sub @ s")
    case Nil
    then show ?thesis by simp
  next
    case (Cons a l)
    with t have "take (length sub) (a # l) = sub" by simp
    with Cons show ?thesis by simp
  qed
next
  case (Cons x pre)
  then show ?case by auto
qed

lemma py_split_none: "sep \<noteq> [] \<Longrightarrow> find_first sep s = None \<Longrightarrow> py_split s sep = [s]"
  by (subst py_split.simps) simp

lemma py_split_Some:
  "sep \<noteq> [] \<Longrightarrow> find_first sep s = Some i \<Longrightarrow>
   py_split s sep = take i s # py_split (drop (i + length sep) s) sep"
  by (subst py_split.simps) simp

lemma nth_take_drop:
  "m < n \<Longrightarrow> i + m < length xs \<Longrightarrow> take n (drop i xs) ! m = xs ! (i + m)"
  by simp

lemma py_split_last:
  assumes sep: "sep \<noteq> []" "last sep \<notin> set (butlast sep)" and s: "find_first sep s = None"
  shows "last (py_split (pre @ sep @ s) sep) = s"
proof (induction "length pre" arbitrary: pre rule: less_induct)
  case less
  let ?full = "pre @ sep @ s"
  let ?n = "length sep"
  from sep(1) have n: "0 < ?n" by simp
  obtain i where i: "find_first sep ?full = Some i"
    using find_first_occurs [of sep pre s] by auto
  then have bound: "i + ?n \<le> length ?full"
    and match: "take ?n (drop i ?full) = sep"
    and first: "\<forall>j<i. take ?n (drop j ?full) \<noteq> sep"
    by (simp_all add: find_first_Some_iff)
  have "take ?n (drop (length pre) ?full) = sep" by simp
  with first have le: "i \<le> length pre"
    by (meson not_le)
  have split: "py_split ?full sep = take i ?full # py_split (drop (i + ?n) ?full) sep"
    using sep(1) i by (rule py_split_Some)
  show ?case
  proof (cases "i = length pre")
    case True
    then have "drop (i + ?n) ?full = s" by simp
    with split s sep(1) show ?thesis by (simp add: py_split_none)
  next
    case False
    with le have lt: "i < length pre" by simp
    have fit: "i + ?n \<le> length pre"
    proof (rule ccontr)
      assume "\<not> i + ?n \<le> length pre"
      then have over: "length pre < i + ?n" by simp
      define k where "k = i + ?n - 1"
      have k: "length pre \<le> k" "k - length pre < ?n - 1" "k < length ?full"
        and k3: "k = i + (?n - 1)"
        using over lt n bound by (simp_all add: k_def)
      have m: "k - length pre < ?n" "\<not> k < length pre"
        using k by simp_all
      have "take ?n (drop i ?full) ! (?n - 1) = ?full ! (i + (?n - 1))"
        using n k k3 by (intro nth_take_drop) simp_all
      with match have "?full ! k = sep ! (?n - 1)"
        using k3 by simp
      then have "?full ! k = last sep"
        using sep(1) by (simp add: last_conv_nth)
      moreover have "?full ! k = sep ! (k - length pre)"
        using m by (simp only: nth_append if_False if_True)
      moreover have "sep ! (k - length pre) = butlast sep ! (k - length pre)"
        using k(2) by (simp add: nth_butlast)
      moreover have "butlast sep ! (k - length pre) \<in> set (butlast sep)"
        using k(2) by (intro nth_mem) simp
      ultimately show False using sep(2) by simp
    qed
    then have d: "drop (i + ?n) ?full = drop (i + ?n) pre @ sep @ s" by simp
    from lt n have "length pre - (i + ?n) < length pre"
      by linarith
    then have "length (drop (i + ?n) pre) < length pre"
      by simp
    then have "last (py_split (drop (i + ?n) pre @ sep @ s) sep) = s"
      by (rule less)
    moreover have "py_split (drop (i + ?n) pre @ sep @ s) sep \<noteq> []"
      using sep(1) by (rule py_split_not_Nil)
    ultimately show ?thesis
      using split d by simp
  qed
qed

lemma session_given:
  assumes "s \<noteq> []" "CHR ''&'' \<notin> set s" "\<not> contains ''session='' s"
  shows "subscription_session (pre @ ''session='' @ s) = s"
proof -
  have c: "contains ''session='' (pre @ ''session='' @ s)"
    using find_first_occurs [of "''session=''" pre s] by (simp add: contains_def)
  from assms(3) have "find_first ''session='' s = None"
    by (simp add: contains_def)
  then have "last (py_split (pre @ ''session='' @ s) ''session='') = s"
    by (intro py_split_last) simp_all
  moreover have "py_split s ''&'' = [s]"
    using assms(2) by (rule py_split_char_none)
  ultimately show ?thesis
    using c assms(1) by (simp add: subscription_session_def)
qed

lemma session_omitted: "\<not> contains ''session='' pa \<Longrightarrow> subscription_session pa = pa"
  by (simp add: subscription_session_def)

lemma is_digit_no_separator:
  assumes "is_digit c"
  shows "c \<noteq> CHR '':''" "c \<noteq> CHR ''/''"
  using assms by (auto simp: is_digit_def)

lemma parse_with_port:
  assumes "CHR '':'' \<notin> set h" "CHR ''/'' \<notin> set h" "CHR '':'' \<notin> set p" "CHR ''/'' \<notin> set p"
  shows "split_host_port_path (h @ '':'' @ p @ ''/'' @ rest) =
           and_then (py_int p) (\<lambda>n. Inr (h, n, ''/'' @ rest))"
    and "split_host_port_path (h @ '':'' @ p) = and_then (py_int p) (\<lambda>n. Inr (h, n, ''/''))"
proof -
  have "CHR ''/'' \<notin> set (h @ CHR '':'' # p)" using assms by simp
  then have "split_host_port_path ((h @ CHR '':'' # p) @ CHR ''/'' # rest) =
               split_port (h @ CHR '':'' # p) (CHR ''/'' # rest)"
    and "split_host_port_path (h @ CHR '':'' # p) = split_port (h @ CHR '':'' # p) ''/''"
    by (rule shpp_path, rule shpp_bare)
  with assms show "split_host_port_path (h @ '':'' @ p @ ''/'' @ rest) =
           and_then (py_int p) (\<lambda>n. Inr (h, n, ''/'' @ rest))"
    and "split_host_port_path (h @ '':'' @ p) = and_then (py_int p) (\<lambda>n. Inr (h, n, ''/''))"
    by (simp_all add: split_port_one)
qed

lemma parse_without_port:
  assumes "CHR '':'' \<notin> set h" "CHR ''/'' \<notin> set h"
  shows "split_host_port_path (h @ ''/'' @ rest) = Inr (h, 443, ''/'' @ rest)"
    and "split_host_port_path h = Inr (h, 443, ''/'')"
  using assms shpp_path [of h rest] shpp_bare [of h] by (simp_all add: split_port_plain)

lemma parse_many_colons:
  assumes "CHR '':'' \<notin> set h" "CHR ''/'' \<notin> set h" "CHR ''/'' \<notin> set p" "CHR '':'' \<in> set p"
  shows "split_host_port_path (h @ '':'' @ p) = Inl (ValueError Too_many_values)"
proof -
  have "CHR ''/'' \<notin> set (h @ CHR '':'' # p)" using assms by simp
  then have "split_host_port_path (h @ CHR '':'' # p) = split_port (h @ CHR '':'' # p) ''/''"
    by (rule shpp_bare)
  with assms show ?thesis by (simp add: split_port_many)
qed

lemma parse_rtsp:
  "parse_url (''rtsp://'' @ t) = Inl (ValueError Invalid_literal)"
  "parse_url (''rtsps://'' @ t) = Inl (ValueError Invalid_literal)"
proof -
  have 1: "\<not> startswith (''rtsp://'' @ t) ''immis://''" "\<not> startswith (''rtsps://'' @ t) ''immis://''"
    by (simp_all add: startswith_immis_iff)
  have "split_host_port_path (''rtsp'' @ '':'' @ [] @ ''/'' @ (''/'' @ t)) =
          and_then (py_int []) (\<lambda>n. Inr (''rtsp'', n, ''/'' @ (''/'' @ t)))"
    by (rule parse_with_port) simp_all
  then show "parse_url (''rtsp://'' @ t) = Inl (ValueError Invalid_literal)"
    using 1 by (simp add: parse_url_other py_int_empty and_then_def)
  have "split_host_port_path (''rtsps'' @ '':'' @ [] @ ''/'' @ (''/'' @ t)) =
          and_then (py_int []) (\<lambda>n. Inr (''rtsps'', n, ''/'' @ (''/'' @ t)))"
    by (rule parse_with_port) simp_all
  then show "parse_url (''rtsps://'' @ t) = Inl (ValueError Invalid_literal)"
    using 1 by (simp add: parse_url_other py_int_empty and_then_def)
qed

text \<open>
  Claim C7.  For a reference \<open>immis://h:p/path?session=s\<close>, where \<open>h\<close> has no
  colon and no slash, \<open>p\<close> is a non-empty string of at most 4300 decimal digits, and
  \<open>s\<close> is non-empty and contains neither \<open>&\<close> nor \<open>session=\<close>, parsing gives
  host \<open>h\<close>, the port \<open>p\<close> denotes and the path, from which the subscription takes
  the session \<open>s\<close>.  Without a port the port is 443, with or without a path.  A path
  without \<open>session=\<close> is itself the session.
\<close>

theorem endpoint_parse:
  "(CHR '':'' \<notin> set h \<and> CHR ''/'' \<notin> set h \<and> p \<noteq> [] \<and> (\<forall>c\<in>set p. is_digit c) \<and>
    length p \<le> 4300 \<and> s \<noteq> [] \<and> CHR ''&'' \<notin> set s \<and> \<not> contains ''session='' s \<longrightarrow>
      parse_url (''immis://'' @ h @ '':'' @ p @ ''/'' @ path @ ''?session='' @ s) =
        Inr (h, decimal p, ''/'' @ path @ ''?session='' @ s) \<and>
      subscription_session (''/'' @ path @ ''?session='' @ s) = s) \<and>
   (CHR '':'' \<notin> set h0 \<and> CHR ''/'' \<notin> set h0 \<longrightarrow>
      parse_url (''immis://'' @ h0 @ ''/'' @ rest) = Inr (h0, 443, ''/'' @ rest) \<and>
      parse_url (''immis://'' @ h0) = Inr (h0, 443, ''/'')) \<and>
   (\<not> contains ''session='' pa \<longrightarrow> subscription_session pa = pa)"
proof (intro conjI impI)
  assume a: "CHR '':'' \<notin> set h \<and> CHR ''/'' \<notin> set h \<and> p \<noteq> [] \<and> (\<forall>c\<in>set p. is_digit c) \<and>
    length p \<le> 4300 \<and> s \<noteq> [] \<and> CHR ''&'' \<notin> set s \<and> \<not> contains ''session='' s"
  then have p: "CHR '':'' \<notin> set p" "CHR ''/'' \<notin> set p"
    using is_digit_no_separator by blast+
  from a have "py_int p = Inr (decimal p)"
    by (intro py_int_digits) simp_all
  moreover have "split_host_port_path (h @ '':'' @ p @ ''/'' @ (path @ ''?session='' @ s)) =
      and_then (py_int p) (\<lambda>n. Inr (h, n, ''/'' @ (path @ ''?session='' @ s)))"
    using a p by (intro parse_with_port) simp_all
  ultimately show "parse_url (''immis://'' @ h @ '':'' @ p @ ''/'' @ path @ ''?session='' @ s) =
        Inr (h, decimal p, ''/'' @ path @ ''?session='' @ s)"
    using parse_url_immis [of "h @ '':'' @ p @ ''/'' @ path @ ''?session='' @ s"]
    by (simp add: and_then_def)
  have "subscription_session ((''/'' @ path @ ''?'') @ ''session='' @ s) = s"
    using a by (intro session_given) simp_all
  then show "subscription_session (''/'' @ path @ ''?session='' @ s) = s"
    by simp
next
  assume a: "CHR '':'' \<notin> set h0 \<and> CHR ''/'' \<notin> set h0"
  then show "parse_url (''immis://'' @ h0 @ ''/'' @ rest) = Inr (h0, 443, ''/'' @ rest)"
    using parse_url_immis [of "h0 @ ''/'' @ rest"] parse_without_port(1) [of h0 rest] by simp
  from a show "parse_url (''immis://'' @ h0) = Inr (h0, 443, ''/'')"
    using parse_url_immis [of h0] parse_without_port(2) [of h0] by simp
next
  assume "\<not> contains ''session='' pa"
  then show "subscription_session pa = pa" by (rule session_omitted)
qed

theorem endpoint_parse_witness:
  "CHR '':'' \<notin> set ''cam.example.net'' \<and> CHR ''/'' \<notin> set ''cam.example.net'' \<and>
   \<not> contains ''session='' ''abc123'' \<and>
   parse_url ''immis://cam.example.net:8443/live/1?session=abc123'' =
     Inr (''cam.example.net'', 8443, ''/live/1?session=abc123'') \<and>
   subscription_session ''/live/1?session=abc123'' = ''abc123'' \<and>
   parse_url ''immis://cam.example.net/live/1'' = Inr (''cam.example.net'', 443, ''/live/1'') \<and>
   parse_url ''immis://cam.example.net'' = Inr (''cam.example.net'', 443, ''/'') \<and>
   \<not> contains ''session='' ''/live/1'' \<and>
   subscription_session ''/live/1'' = ''/live/1''"
proof -
  have h: "CHR '':'' \<notin> set ''cam.example.net''" "CHR ''/'' \<notin> set ''cam.example.net''"
    by simp_all
  have d: "\<forall>c\<in>set ''8443''. is_digit c" "decimal ''8443'' = 8443"
    by (simp_all add: is_digit_def decimal_def digit_val_def)
  have s: "\<not> contains ''session='' ''abc123''" "\<not> contains ''session='' ''/live/1''"
    by (simp_all add: contains_def)
  from endpoint_parse
         [of "''cam.example.net''" "''8443''" "''abc123''" "''live/1''" "''cam.example.net''"
             "''live/1''" "''/live/1''"]
    h d s
  show ?thesis by simp
qed

text \<open>
  Claim C8, as the code has it.  The parser validates neither the scheme nor the host:
  whatever stands before the first slash, when it has no colon, is the host, be it empty
  or not, with port 443, whether the string had the prefix \<open>immis://\<close> or not.  The
  parser is a function of its argument; when it fails it is with one of three
  \<open>ValueError\<close>s, of \<open>int\<close> or of the unpacking of the split.
\<close>

theorem parser_accepts:
  "(CHR '':'' \<notin> set seg \<and> CHR ''/'' \<notin> set seg \<longrightarrow>
      parse_url (seg @ ''/'' @ rest) = Inr (seg, 443, ''/'' @ rest) \<and>
      parse_url seg = Inr (seg, 443, ''/'')) \<and>
   parse_url (''immis://'' @ ''/'' @ rest) = Inr ('''', 443, ''/'' @ rest) \<and>
   parse_url ''immis://'' = Inr ('''', 443, ''/'') \<and>
   (parse_url url = Inl e \<longrightarrow>
      e = ValueError Invalid_literal \<or> e = ValueError Exceeds_digit_limit \<or>
      e = ValueError Too_many_values)"
proof (intro conjI impI)
  assume a: "CHR '':'' \<notin> set seg \<and> CHR ''/'' \<notin> set seg"
  then have "\<not> startswith (seg @ ''/'' @ rest) ''immis://''" "\<not> startswith seg ''immis://''"
    using no_scheme_path [of seg rest] no_scheme_bare [of seg] by simp_all
  with a show "parse_url (seg @ ''/'' @ rest) = Inr (seg, 443, ''/'' @ rest)"
    "parse_url seg = Inr (seg, 443, ''/'')"
    using parse_without_port(1) [of seg rest] parse_without_port(2) [of seg]
    by (simp_all add: parse_url_other)
next
  show "parse_url (''immis://'' @ ''/'' @ rest) = Inr ('''', 443, ''/'' @ rest)"
    using parse_url_immis [of "''/'' @ rest"] parse_without_port(1) [of "[]" rest] by simp
  show "parse_url ''immis://'' = Inr ('''', 443, ''/'')"
    using parse_url_immis [of "[]"] parse_without_port(2) [of "[]"] by simp
next
  assume "parse_url url = Inl e"
  then show "e = ValueError Invalid_literal \<or> e = ValueError Exceeds_digit_limit \<or>
      e = ValueError Too_many_values"
    by (rule parse_url_error)
qed

theorem parser_accepts_witness:
  "CHR '':'' \<notin> set ''example.com'' \<and> CHR ''/'' \<notin> set ''example.com'' \<and>
   parse_url ''example.com/live'' = Inr (''example.com'', 443, ''/live'') \<and>
   parse_url ''example.com'' = Inr (''example.com'', 443, ''/'') \<and>
   parse_url ''immis:///live'' = Inr ('''', 443, ''/live'') \<and>
   parse_url ''cam:abc'' = Inl (ValueError Invalid_literal)"
proof -
  have h: "CHR '':'' \<notin> set ''example.com''" "CHR ''/'' \<notin> set ''example.com''"
    by simp_all
  have e: "parse_url ''cam:abc'' = Inl (ValueError Invalid_literal)"
    by code_simp
  from parser_accepts [of "''example.com''" "''live''" "''cam:abc''" "ValueError Invalid_literal"] h e
  show ?thesis by simp
qed

theorem malformed_reference_counterexample:
  "parse_url ''example.com/live'' = Inr (''example.com'', 443, ''/live'') \<and>
   parse_url ''immis:///live'' = Inr ('''', 443, ''/live'')"
  by code_simp

text \<open>
  Claim C10.  A string without the prefix \<open>immis://\<close> is parsed as it stands; one
  without colon and slash is a host with port 443 and path \<open>/\<close>.  When the part
  before the first slash is a host, a colon and a port that \<open>int\<close> refuses (the empty
  string, or one with a character that is no digit, white space, sign or underscore),
  parsing raises the \<open>ValueError\<close> of \<open>int\<close>, in \<open>_parse_url\<close> and in the
  copy of the statements in \<open>_test_immis\<close>; so does every reference that starts
  with \<open>rtsp://\<close> or \<open>rtsps://\<close>.  With a second colon in that part the
  \<open>ValueError\<close> is that of unpacking three values into two.
\<close>

theorem parser_unvalidated:
  "(\<not> startswith url ''immis://'' \<longrightarrow> parse_url url = split_host_port_path url) \<and>
   (CHR '':'' \<notin> set s \<and> CHR ''/'' \<notin> set s \<longrightarrow> parse_url s = Inr (s, 443, ''/'')) \<and>
   (CHR '':'' \<notin> set host \<and> CHR ''/'' \<notin> set host \<and> CHR '':'' \<notin> set port \<and>
    CHR ''/'' \<notin> set port \<and> py_int port = Inl e \<longrightarrow>
      split_host_port_path (host @ '':'' @ port) = Inl e \<and>
      split_host_port_path (host @ '':'' @ port @ ''/'' @ rest) = Inl e \<and>
      parse_url (''immis://'' @ host @ '':'' @ port @ ''/'' @ rest) = Inl e \<and>
      test_immis_parse (''immis://'' @ host @ '':'' @ port @ ''/'' @ rest) = Inl e \<and>
      (e = ValueError Invalid_literal \<or> e = ValueError Exceeds_digit_limit)) \<and>
   py_int '''' = Inl (ValueError Invalid_literal) \<and>
   (c \<in> set bad \<and> \<not> is_digit c \<and> \<not> int_space c \<and> c \<noteq> CHR ''_'' \<and> c \<noteq> CHR ''+'' \<and>
    c \<noteq> CHR ''-'' \<longrightarrow>
      (py_int bad = Inl (ValueError Invalid_literal) \<or>
       py_int bad = Inl (ValueError Exceeds_digit_limit)) \<and>
      (length bad \<le> 4300 \<longrightarrow> py_int bad = Inl (ValueError Invalid_literal))) \<and>
   parse_url (''rtsp://'' @ t) = Inl (ValueError Invalid_literal) \<and>
   parse_url (''rtsps://'' @ t) = Inl (ValueError Invalid_literal) \<and>
   (CHR '':'' \<notin> set host2 \<and> CHR ''/'' \<notin> set host2 \<and> CHR ''/'' \<notin> set port2 \<and>
    CHR '':'' \<in> set port2 \<longrightarrow>
      split_host_port_path (host2 @ '':'' @ port2) = Inl (ValueError Too_many_values))"
proof (intro conjI impI)
  assume "\<not> startswith url ''immis://''"
  then show "parse_url url = split_host_port_path url" by (rule parse_url_other)
next
  assume a: "CHR '':'' \<notin> set s \<and> CHR ''/'' \<notin> set s"
  then have "\<not> startswith s ''immis://''" using no_scheme_bare by blast
  with a show "parse_url s = Inr (s, 443, ''/'')"
    using parse_without_port(2) [of s] by (simp add: parse_url_other)
next
  assume a: "CHR '':'' \<notin> set host \<and> CHR ''/'' \<notin> set host \<and> CHR '':'' \<notin> set port \<and>
    CHR ''/'' \<notin> set port \<and> py_int port = Inl e"
  then have 1: "split_host_port_path (host @ '':'' @ port @ ''/'' @ rest) =
      and_then (py_int port) (\<lambda>n. Inr (host, n, ''/'' @ rest))"
    and 2: "split_host_port_path (host @ '':'' @ port) =
      and_then (py_int port) (\<lambda>n. Inr (host, n, ''/''))"
    by (intro parse_with_port; simp)+
  from a 2 show "split_host_port_path (host @ '':'' @ port) = Inl e"
    by (simp add: and_then_def)
  from a 1 show r: "split_host_port_path (host @ '':'' @ port @ ''/'' @ rest) = Inl e"
    by (simp add: and_then_def)
  then show "parse_url (''immis://'' @ host @ '':'' @ port @ ''/'' @ rest) = Inl e"
    using parse_url_immis [of "host @ '':'' @ port @ ''/'' @ rest"] by simp
  from r show "test_immis_parse (''immis://'' @ host @ '':'' @ port @ ''/'' @ rest) = Inl e"
    using test_immis_parse_immis [of "host @ '':'' @ port @ ''/'' @ rest"] by simp
  from a show "e = ValueError Invalid_literal \<or> e = ValueError Exceeds_digit_limit"
    using py_int_error by blast
next
  show "py_int '''' = Inl (ValueError Invalid_literal)" by (rule py_int_empty)
next
  assume a: "c \<in> set bad \<and> \<not> is_digit c \<and> \<not> int_space c \<and> c \<noteq> CHR ''_'' \<and> c \<noteq> CHR ''+'' \<and>
    c \<noteq> CHR ''-''"
  then show "py_int bad = Inl (ValueError Invalid_literal) \<or>
       py_int bad = Inl (ValueError Exceeds_digit_limit)"
    using py_int_bad by blast
  show "py_int bad = Inl (ValueError Invalid_literal)" if "length bad \<le> 4300"
    using a that py_int_bad_short by blast
next
  show "parse_url (''rtsp://'' @ t) = Inl (ValueError Invalid_literal)"
    "parse_url (''rtsps://'' @ t) = Inl (ValueError Invalid_literal)"
    by (rule parse_rtsp)+
next
  assume "CHR '':'' \<notin> set host2 \<and> CHR ''/'' \<notin> set host2 \<and> CHR ''/'' \<notin> set port2 \<and>
    CHR '':'' \<in> set port2"
  then show "split_host_port_path (host2 @ '':'' @ port2) = Inl (ValueError Too_many_values)"
    using parse_many_colons by blast
qed

theorem parser_unvalidated_witness:
  "\<not> startswith ''example.com'' ''immis://'' \<and>
   parse_url ''example.com'' = split_host_port_path ''example.com'' \<and>
   parse_url ''example.com'' = Inr (''example.com'', 443, ''/'') \<and>
   py_int ''8a'' = Inl (ValueError Invalid_literal) \<and>
   split_host_port_path ''cam:8a'' = Inl (ValueError Invalid_literal) \<and>
   parse_url ''immis://cam:8a/live'' = Inl (ValueError Invalid_literal) \<and>
   test_immis_parse ''immis://cam:8a/live'' = Inl (ValueError Invalid_literal) \<and>
   parse_url ''rtsp://cam:554/live'' = Inl (ValueError Invalid_literal) \<and>
   parse_url ''rtsps://cam:554/live'' = Inl (ValueError Invalid_literal) \<and>
   split_host_port_path ''a:b:c'' = Inl (ValueError Too_many_values)"
proof -
  have 1: "\<not> startswith ''example.com'' ''immis://''"
    by (simp add: startswith_immis_iff)
  have 2: "CHR '':'' \<notin> set ''example.com''" "CHR ''/'' \<notin> set ''example.com''"
    "CHR '':'' \<notin> set ''cam''" "CHR ''/'' \<notin> set ''cam''" "CHR '':'' \<notin> set ''8a''" "CHR ''/'' \<notin> set ''8a''"
    "CHR '':'' \<notin> set ''a''" "CHR ''/'' \<notin> set ''a''" "CHR ''/'' \<notin> set ''b:c''" "CHR '':'' \<in> set ''b:c''"
    by simp_all
  have 3: "CHR ''a'' \<in> set ''8a''" "\<not> is_digit CHR ''a''" "\<not> int_space CHR ''a''"
    by (simp_all add: is_digit_def int_space_def)
  note t = parser_unvalidated
         [of "''example.com''" "''example.com''" "''cam''" "''8a''" "ValueError Invalid_literal"
             "''live''" "CHR ''a''" "''8a''" "''cam:554/live''" "''a''" "''b:c''"]
  have "length ''8a'' \<le> 4300" by simp
  with t 3 have 4: "py_int ''8a'' = Inl (ValueError Invalid_literal)"
    by blast
  from t 1 have 5: "parse_url ''example.com'' = split_host_port_path ''example.com''"
    by blast
  from t 2 4 have
    "parse_url ''example.com'' = Inr (''example.com'', 443, ''/'') \<and>
     split_host_port_path ''cam:8a'' = Inl (ValueError Invalid_literal) \<and>
     parse_url ''immis://cam:8a/live'' = Inl (ValueError Invalid_literal) \<and>
     test_immis_parse ''immis://cam:8a/live'' = Inl (ValueError Invalid_literal) \<and>
     parse_url ''rtsp://cam:554/live'' = Inl (ValueError Invalid_literal) \<and>
     parse_url ''rtsps://cam:554/live'' = Inl (ValueError Invalid_literal) \<and>
     split_host_port_path ''a:b:c'' = Inl (ValueError Too_many_values)"
    by simp
  with 1 4 5 show ?thesis by blast
qed

section \<open>Teardown\<close>









end
